theory Spec2Isabelle
  imports Main "HOL-Library.Code_Target_Nat"
begin

section \<open>JavaScript values\<close>

text \<open>
  The two route handlers \<^verbatim>\<open>app/api/chainFetch/route.ts\<close> and
  \<^verbatim>\<open>app/api/openFetch/route.ts\<close> pass values of type \<^verbatim>\<open>any\<close> around: decoded
  response bodies and request bodies. They are modelled as JSON trees, extended with
  \<^verbatim>\<open>undefined\<close>, \<^verbatim>\<open>NaN\<close> and the two byte containers that \<^verbatim>\<open>response.blob()\<close> and
  \<^verbatim>\<open>response.arrayBuffer()\<close> return (carrying their byte length). The code never
  computes with numbers, it only tests them for truthiness, so they are carried as
  integers, and a string is the list of its code units. An object is an association
  list in the order in which the engine lists the keys: array indices first, in
  ascending order, then the other keys in insertion order. Only the first entry of a key
  is ever read.
\<close>

datatype jsval =
    JUndefined
  | JNull
  | JBool bool
  | JNum int
  | JNaN
  | JStr string
  | JArr "jsval list"
  | JObj "(string \<times> jsval) list"
  | JBlob nat
  | JArrayBuffer nat

text \<open>
  What the code can throw or run into. \<open>Error m\<close> is an \<^verbatim>\<open>Error\<close> object with message
  \<open>m\<close>, created by the route itself (\<^verbatim>\<open>new Error(...)\<close>) or by the host (a failed
  \<^verbatim>\<open>fetch\<close>, a body that cannot be read or parsed). \<open>TypeError\<close> is the engine's
  exception for reading a property of \<^verbatim>\<open>undefined\<close>/\<^verbatim>\<open>null\<close>, for writing a property
  of a primitive (both route files are ES modules, hence strict code) and for calling
  something that is not a function; its message text is the engine's. \<open>Unmodelled\<close> is
  not an exception: it marks the places where the code goes on with a value the type
  \<open>jsval\<close> has no place for (a built-in function or prototype object read from a
  member inherited from a built-in prototype, an object whose prototype was replaced,
  an array or a byte container with an added property). No theorem below says anything
  about a run that ends there, except that it ends there.
\<close>

datatype error = Error string | TypeError | Unmodelled

text \<open>\<^verbatim>\<open>!!v\<close>: the falsy values are \<^verbatim>\<open>undefined\<close>, \<^verbatim>\<open>null\<close>, \<^verbatim>\<open>false\<close>, \<^verbatim>\<open>0\<close>, \<^verbatim>\<open>NaN\<close> and \<^verbatim>\<open>''\<close>.\<close>

fun truthy :: "jsval \<Rightarrow> bool" where
  "truthy JUndefined = False"
| "truthy JNull = False"
| "truthy (JBool b) = b"
| "truthy (JNum n) = (n \<noteq> 0)"
| "truthy JNaN = False"
| "truthy (JStr s) = (s \<noteq> [])"
| "truthy (JArr xs) = True"
| "truthy (JObj kvs) = True"
| "truthy (JBlob n) = True"
| "truthy (JArrayBuffer n) = True"

text \<open>\<^verbatim>\<open>a || b\<close>\<close>

definition js_or :: "jsval \<Rightarrow> jsval \<Rightarrow> jsval" where
  "js_or a b = (if truthy a then a else b)"

fun nullish :: "jsval \<Rightarrow> bool" where
  "nullish JUndefined = True"
| "nullish JNull = True"
| "nullish v = False"

subsection \<open>Strings\<close>

text \<open>\<^verbatim>\<open>s.startsWith(t)\<close> and \<^verbatim>\<open>s.includes(t)\<close>\<close>

fun starts_with :: "string \<Rightarrow> string \<Rightarrow> bool" where
  "starts_with s [] = True"
| "starts_with [] (y # ys) = False"
| "starts_with (x # xs) (y # ys) = (x = y \<and> starts_with xs ys)"

fun str_includes :: "string \<Rightarrow> string \<Rightarrow> bool" where
  "str_includes [] t = (t = [])"
| "str_includes (c # cs) t = (starts_with (c # cs) t \<or> str_includes cs t)"

text \<open>
  \<^verbatim>\<open>s.split(c)\<close> for a separator of one character: the result is never empty, and the
  empty string splits into one empty piece.
\<close>

fun split_on :: "char \<Rightarrow> string \<Rightarrow> string list" where
  "split_on c [] = [[]]"
| "split_on c (x # xs) =
     (if x = c then [] # split_on c xs
      else (case split_on c xs of
              [] \<Rightarrow> [[x]]
            | p # ps \<Rightarrow> (x # p) # ps))"

text \<open>Decimal rendering of a number, as a template literal does for \<^verbatim>\<open>response.status\<close>.\<close>

definition digit_char :: "nat \<Rightarrow> char" where
  "digit_char d = ''0123456789'' ! d"

fun show_nat :: "nat \<Rightarrow> string" where
  "show_nat n = (if n < 10 then [digit_char n] else show_nat (n div 10) @ [digit_char (n mod 10)])"

declare show_nat.simps [simp del]

definition show_int :: "int \<Rightarrow> string" where
  "show_int n = (if n < 0 then CHR ''-'' # show_nat (nat (- n)) else show_nat (nat n))"

text \<open>\<^verbatim>\<open>pieces.join(sep)\<close>\<close>

fun join_with :: "string \<Rightarrow> string list \<Rightarrow> string" where
  "join_with sep [] = []"
| "join_with sep [x] = x"
| "join_with sep (x # y # ys) = x @ sep @ join_with sep (y # ys)"

text \<open>
  An array index as a property key: the canonical decimal string (no sign, no leading
  zero) of a number below \<open>2^32 - 1\<close>. \<open>parse_index k\<close> is that number when \<open>k\<close> is such a
  string.
\<close>

definition is_digit :: "char \<Rightarrow> bool" where
  "is_digit c = (48 \<le> (of_char c :: nat) \<and> (of_char c :: nat) \<le> 57)"

definition decimal_value :: "string \<Rightarrow> nat" where
  "decimal_value k = foldl (\<lambda>acc c. 10 * acc + ((of_char c :: nat) - 48)) 0 k"

definition parse_index :: "string \<Rightarrow> nat option" where
  "parse_index k =
     (if k = [] \<or> \<not> list_all is_digit k \<or> (hd k = CHR ''0'' \<and> length k > 1)
         \<or> decimal_value k \<ge> 4294967295 then None
      else Some (decimal_value k))"

subsection \<open>Property access\<close>

text \<open>
  Assignment to a key of an object. An existing entry is replaced where it stands. A new
  entry goes where the engine lists it: a key that is an array index is placed among
  the index keys, which come first in ascending numeric order, and any other key is
  added last.
\<close>

fun replace_key :: "string \<Rightarrow> 'v \<Rightarrow> (string \<times> 'v) list \<Rightarrow> (string \<times> 'v) list" where
  "replace_key k v [] = []"
| "replace_key k v (p # ps) = (if fst p = k then (k, v) # ps else p # replace_key k v ps)"

fun insert_key :: "string \<Rightarrow> 'v \<Rightarrow> (string \<times> 'v) list \<Rightarrow> (string \<times> 'v) list" where
  "insert_key k v [] = [(k, v)]"
| "insert_key k v (p # ps) =
     (case parse_index k of
        None \<Rightarrow> p # insert_key k v ps
      | Some n \<Rightarrow>
          (case parse_index (fst p) of
             None \<Rightarrow> (k, v) # p # ps
           | Some m \<Rightarrow> (if m < n then p # insert_key k v ps else (k, v) # p # ps)))"

definition assign :: "string \<Rightarrow> 'v \<Rightarrow> (string \<times> 'v) list \<Rightarrow> (string \<times> 'v) list" where
  "assign k v kvs = (if map_of kvs k = None then insert_key k v kvs else replace_key k v kvs)"

text \<open>
  The twelve property names every plain object inherits from \<^verbatim>\<open>Object.prototype\<close>. They
  are what \<^verbatim>\<open>obj[key]\<close> finds when \<open>obj\<close> has no own property \<open>key\<close>: the value is then a
  built-in function (the prototype object itself for \<^verbatim>\<open>__proto__\<close>), not \<^verbatim>\<open>undefined\<close>.
\<close>

definition object_prototype_keys :: "string list" where
  "object_prototype_keys =
     [''constructor'', ''__defineGetter__'', ''__defineSetter__'', ''hasOwnProperty'',
      ''__lookupGetter__'', ''__lookupSetter__'', ''isPrototypeOf'', ''propertyIsEnumerable'',
      ''toString'', ''valueOf'', ''__proto__'', ''toLocaleString'']"

text \<open>
  The string-named members of the other built-in prototypes a value of the model can
  inherit from, as ECMAScript 2025 and the File API define them (an older engine lacks
  the latest of them). Each of these prototypes inherits from \<^verbatim>\<open>Object.prototype\<close> in
  turn.
\<close>

definition array_prototype_keys :: "string list" where
  "array_prototype_keys =
     [''at'', ''concat'', ''copyWithin'', ''entries'', ''every'', ''fill'', ''filter'', ''find'',
      ''findIndex'', ''findLast'', ''findLastIndex'', ''flat'', ''flatMap'', ''forEach'',
      ''includes'', ''indexOf'', ''join'', ''keys'', ''lastIndexOf'', ''map'', ''pop'', ''push'',
      ''reduce'', ''reduceRight'', ''reverse'', ''shift'', ''slice'', ''some'', ''sort'', ''splice'',
      ''toReversed'', ''toSorted'', ''toSpliced'', ''unshift'', ''values'', ''with'']"

definition string_prototype_keys :: "string list" where
  "string_prototype_keys =
     [''anchor'', ''at'', ''big'', ''blink'', ''bold'', ''charAt'', ''charCodeAt'', ''codePointAt'',
      ''concat'', ''endsWith'', ''fixed'', ''fontcolor'', ''fontsize'', ''includes'', ''indexOf'',
      ''isWellFormed'', ''italics'', ''lastIndexOf'', ''link'', ''localeCompare'', ''match'',
      ''matchAll'', ''normalize'', ''padEnd'', ''padStart'', ''repeat'', ''replace'', ''replaceAll'',
      ''search'', ''slice'', ''small'', ''split'', ''startsWith'', ''strike'', ''sub'', ''substr'',
      ''substring'', ''sup'', ''toLocaleLowerCase'', ''toLocaleUpperCase'', ''toLowerCase'',
      ''toUpperCase'', ''toWellFormed'', ''trim'', ''trimEnd'', ''trimLeft'', ''trimRight'',
      ''trimStart'']"

definition number_prototype_keys :: "string list" where
  "number_prototype_keys = [''toExponential'', ''toFixed'', ''toPrecision'']"

definition blob_prototype_keys :: "string list" where
  "blob_prototype_keys = [''arrayBuffer'', ''bytes'', ''slice'', ''stream'', ''text'', ''type'']"

definition arraybuffer_prototype_keys :: "string list" where
  "arraybuffer_prototype_keys =
     [''detached'', ''maxByteLength'', ''resizable'', ''resize'', ''slice'', ''transfer'',
      ''transferToFixedLength'']"

text \<open>
  \<open>own_prop v k\<close> reads \<^verbatim>\<open>v[k]\<close> among the own properties of \<open>v\<close>: the entries of an
  object, the elements and the length of an array, the characters and the length of a
  string. It is the whole of \<^verbatim>\<open>v[k]\<close> when \<open>k\<close> is no member of a built-in prototype, which
  holds for every key the source writes as a literal (\<^verbatim>\<open>choices\<close>, \<^verbatim>\<open>0\<close>, \<^verbatim>\<open>message\<close>,
  \<^verbatim>\<open>content\<close>, \<^verbatim>\<open>data\<close>, \<^verbatim>\<open>length\<close>, \<^verbatim>\<open>format\<close>, \<^verbatim>\<open>content-type\<close>). \<open>v\<close> is not
  \<^verbatim>\<open>undefined\<close> or \<^verbatim>\<open>null\<close> here; the callers test that first.
\<close>

fun own_prop :: "jsval \<Rightarrow> string \<Rightarrow> jsval" where
  "own_prop (JObj kvs) k = (case map_of kvs k of Some v \<Rightarrow> v | None \<Rightarrow> JUndefined)"
| "own_prop (JArr xs) k =
     (if k = ''length'' then JNum (int (length xs))
      else (case parse_index k of
              Some i \<Rightarrow> (if i < length xs then xs ! i else JUndefined)
            | None \<Rightarrow> JUndefined))"
| "own_prop (JStr s) k =
     (if k = ''length'' then JNum (int (length s))
      else (case parse_index k of
              Some i \<Rightarrow> (if i < length s then JStr [s ! i] else JUndefined)
            | None \<Rightarrow> JUndefined))"
| "own_prop v k = JUndefined"

text \<open>\<^verbatim>\<open>v?.[k]\<close> for a literal key \<open>k\<close>\<close>

definition opt_prop :: "jsval \<Rightarrow> string \<Rightarrow> jsval" where
  "opt_prop v k = (if nullish v then JUndefined else own_prop v k)"

text \<open>\<^verbatim>\<open>v[k]\<close> for a literal key \<open>k\<close>: reading a property of \<^verbatim>\<open>undefined\<close> or \<^verbatim>\<open>null\<close> throws.\<close>

definition strict_prop :: "jsval \<Rightarrow> string \<Rightarrow> error + jsval" where
  "strict_prop v k = (if nullish v then Inl TypeError else Inr (own_prop v k))"

text \<open>
  A key that is no own property: when it names a member of the value's prototype
  (\<open>proto\<close>) or of \<^verbatim>\<open>Object.prototype\<close>, the read finds a built-in (a function, or the
  media type of a blob), which the model does not hold; any other key reads
  \<^verbatim>\<open>undefined\<close>.
\<close>

definition inherited_or_absent :: "string list \<Rightarrow> string \<Rightarrow> error + jsval" where
  "inherited_or_absent proto k =
     (if k \<in> set proto \<or> k \<in> set object_prototype_keys then Inl Unmodelled else Inr JUndefined)"

text \<open>
  \<open>get_prop v k\<close> reads \<^verbatim>\<open>v[k]\<close> for a key chosen by the caller of the endpoint. Reading
  a property of \<^verbatim>\<open>undefined\<close> or \<^verbatim>\<open>null\<close> throws. An own property wins: the entries of an
  object, the indices and \<^verbatim>\<open>length\<close> of an array or a string, the byte length of a byte
  container (an accessor of its prototype, whose value the model carries). Numbers and
  booleans have no own properties.
\<close>

fun get_prop :: "jsval \<Rightarrow> string \<Rightarrow> error + jsval" where
  "get_prop JUndefined k = Inl TypeError"
| "get_prop JNull k = Inl TypeError"
| "get_prop (JObj kvs) k =
     (case map_of kvs k of
        Some v \<Rightarrow> Inr v
      | None \<Rightarrow> inherited_or_absent [] k)"
| "get_prop (JArr xs) k =
     (if k = ''length'' \<or> parse_index k \<noteq> None then Inr (own_prop (JArr xs) k)
      else inherited_or_absent array_prototype_keys k)"
| "get_prop (JStr s) k =
     (if k = ''length'' \<or> parse_index k \<noteq> None then Inr (own_prop (JStr s) k)
      else inherited_or_absent string_prototype_keys k)"
| "get_prop (JNum n) k = inherited_or_absent number_prototype_keys k"
| "get_prop JNaN k = inherited_or_absent number_prototype_keys k"
| "get_prop (JBool b) k = inherited_or_absent [] k"
| "get_prop (JBlob n) k =
     (if k = ''size'' then Inr (JNum (int n)) else inherited_or_absent blob_prototype_keys k)"
| "get_prop (JArrayBuffer n) k =
     (if k = ''byteLength'' then Inr (JNum (int n)) else inherited_or_absent arraybuffer_prototype_keys k)"

text \<open>\<^verbatim>\<open>v?.[k]\<close> for a key chosen by the caller\<close>

definition opt_get_prop :: "jsval \<Rightarrow> string \<Rightarrow> error + jsval" where
  "opt_get_prop v k = (if nullish v then Inr JUndefined else get_prop v k)"

text \<open>The values that are objects of the engine; the others are primitives.\<close>

fun is_object :: "jsval \<Rightarrow> bool" where
  "is_object (JObj kvs) = True"
| "is_object (JArr xs) = True"
| "is_object (JBlob n) = True"
| "is_object (JArrayBuffer n) = True"
| "is_object v = False"

text \<open>
  \<^verbatim>\<open>receiver.__proto__ = x\<close> on an object without an own property of that name: the
  setter inherited from \<^verbatim>\<open>Object.prototype\<close> runs. It ignores a primitive \<open>x\<close> and
  returns; for an object or \<^verbatim>\<open>null\<close> it replaces the prototype of the receiver, which
  the model cannot hold.
\<close>

definition proto_write :: "jsval \<Rightarrow> jsval \<Rightarrow> error + jsval" where
  "proto_write receiver x = (if is_object x \<or> x = JNull then Inl Unmodelled else Inr receiver)"

text \<open>
  \<open>set_prop v k x\<close> is \<^verbatim>\<open>v[k] = x\<close>, returning the updated \<open>v\<close>. A write to \<^verbatim>\<open>undefined\<close>
  or \<^verbatim>\<open>null\<close> throws. On an object the write creates or replaces an own property,
  except for \<^verbatim>\<open>__proto__\<close> on an object without such an own property. On an array a write
  at an index replaces the element or extends the array (the gap reads as
  \<^verbatim>\<open>undefined\<close>); any other key of an array, \<^verbatim>\<open>length\<close> included, sets a property
  the model has no place for, and so does a key of a byte container, whose size is
  read-only. Both route files are ES modules, hence strict code: a write to a
  primitive throws, except for \<^verbatim>\<open>__proto__\<close>, where the inherited setter is called, does
  nothing for a primitive receiver and returns.
\<close>

fun set_prop :: "jsval \<Rightarrow> string \<Rightarrow> jsval \<Rightarrow> error + jsval" where
  "set_prop JUndefined k x = Inl TypeError"
| "set_prop JNull k x = Inl TypeError"
| "set_prop (JObj kvs) k x =
     (if k = ''__proto__'' \<and> map_of kvs k = None then proto_write (JObj kvs) x
      else Inr (JObj (assign k x kvs)))"
| "set_prop (JArr xs) k x =
     (case parse_index k of
        Some i \<Rightarrow> (if i < length xs then Inr (JArr (xs[i := x]))
                   else Inr (JArr (xs @ replicate (i - length xs) JUndefined @ [x])))
      | None \<Rightarrow> (if k = ''__proto__'' then proto_write (JArr xs) x else Inl Unmodelled))"
| "set_prop (JBlob n) k x =
     (if k = ''__proto__'' then proto_write (JBlob n) x
      else if k = ''size'' \<or> k = ''type'' then Inl TypeError
      else Inl Unmodelled)"
| "set_prop (JArrayBuffer n) k x =
     (if k = ''__proto__'' then proto_write (JArrayBuffer n) x
      else if k = ''byteLength'' then Inl TypeError
      else Inl Unmodelled)"
| "set_prop v k x = (if k = ''__proto__'' then Inr v else Inl TypeError)"

section \<open>Path utilities\<close>

text \<open>
  \<^verbatim>\<open>function extractByPath(data, path) { return path.reduce((acc, key) => acc?.[key], data); }\<close>
  The source never throws here; \<open>Inl\<close> only arises as \<open>Unmodelled\<close>.
\<close>

fun extractByPath :: "jsval \<Rightarrow> string list \<Rightarrow> error + jsval" where
  "extractByPath acc [] = Inr acc"
| "extractByPath acc (key # path) =
     (case opt_get_prop acc key of
        Inl e \<Rightarrow> Inl e
      | Inr v \<Rightarrow> extractByPath v path)"

text \<open>
  The source mutates the nodes in place, so that a parent sees what was done to its
  child. The model rebuilds the tree on the way back: \<open>replace_child v k c\<close> is \<open>v\<close> with
  the child it holds at \<open>k\<close> replaced by \<open>c\<close>, the state of that child after the walk went
  through it. A primitive has no children that can change.
\<close>

fun replace_child :: "jsval \<Rightarrow> string \<Rightarrow> jsval \<Rightarrow> jsval" where
  "replace_child (JObj kvs) k c = JObj (assign k c kvs)"
| "replace_child (JArr xs) k c = (case parse_index k of Some i \<Rightarrow> JArr (xs[i := c]) | None \<Rightarrow> JArr xs)"
| "replace_child v k c = v"

text \<open>
  The body of \<^verbatim>\<open>injectAtPath\<close> after the split: the reducer
  \<^verbatim>\<open>(acc, part) => { if (!acc[part]) acc[part] = {}; return acc[part]; }\<close> walks \<open>parts\<close>,
  then \<^verbatim>\<open>target[lastPart] = value\<close>.
\<close>

fun inject_parts :: "jsval \<Rightarrow> string list \<Rightarrow> string \<Rightarrow> jsval \<Rightarrow> error + jsval" where
  "inject_parts acc [] lastPart val = set_prop acc lastPart val"
| "inject_parts acc (part # parts) lastPart val =
     (case get_prop acc part of
        Inl e \<Rightarrow> Inl e
      | Inr cur \<Rightarrow>
          (if truthy cur then
             (case inject_parts cur parts lastPart val of
                Inl e \<Rightarrow> Inl e
              | Inr cur' \<Rightarrow> Inr (replace_child acc part cur'))
           else
             (case set_prop acc part (JObj []) of
                Inl e \<Rightarrow> Inl e
              | Inr acc' \<Rightarrow>
                  (case inject_parts (JObj []) parts lastPart val of
                     Inl e \<Rightarrow> Inl e
                   | Inr cur' \<Rightarrow> Inr (replace_child acc' part cur')))))"

text \<open>
  \<^verbatim>\<open>function injectAtPath(obj, path, value)\<close>: \<^verbatim>\<open>parts = path.split('.')\<close>,
  \<^verbatim>\<open>lastPart = parts.pop()\<close>, the walk, the assignment, \<^verbatim>\<open>return obj\<close>.
\<close>

definition injectAtPath :: "jsval \<Rightarrow> string \<Rightarrow> jsval \<Rightarrow> error + jsval" where
  "injectAtPath obj path val =
     (let parts = split_on CHR ''.'' path
      in inject_parts obj (butlast parts) (last parts) val)"

section \<open>Content classifier\<close>

datatype ContentType = KText | KJson | KImage | KAudio | KVideo | KBinary | KStream | KUnknown

text \<open>\<^verbatim>\<open>contentType.split('/')[1]\<close>; \<open>None\<close> is \<^verbatim>\<open>undefined\<close>.\<close>

definition format_of :: "string \<Rightarrow> string option" where
  "format_of contentType =
     (case split_on CHR ''/'' contentType of
        a # f # rest \<Rightarrow> Some f
      | _ \<Rightarrow> None)"

text \<open>
  \<^verbatim>\<open>headers['content-type'] || ''\<close>: the header mapping is an object whose values are
  strings, and the key is no member of a built-in prototype.
\<close>

definition content_type_header :: "(string \<times> string) list \<Rightarrow> string" where
  "content_type_header headers = (case map_of headers ''content-type'' of Some v \<Rightarrow> v | None \<Rightarrow> [])"

text \<open>\<^verbatim>\<open>function getContentType(headers)\<close>, the same text in both route files.\<close>

definition getContentType :: "(string \<times> string) list \<Rightarrow> ContentType \<times> string option" where
  "getContentType headers =
     (let contentType = content_type_header headers
      in if str_includes contentType ''application/json'' then (KJson, None)
         else if str_includes contentType ''text/'' then (KText, None)
         else if str_includes contentType ''image/'' then (KImage, format_of contentType)
         else if str_includes contentType ''audio/'' then (KAudio, format_of contentType)
         else if str_includes contentType ''video/'' then (KVideo, format_of contentType)
         else if str_includes contentType ''application/octet-stream'' then (KBinary, None)
         else (KUnknown, None))"

section \<open>Content extractor\<close>

definition ContentType_name :: "ContentType \<Rightarrow> string" where
  "ContentType_name t =
     (case t of KText \<Rightarrow> ''text'' | KJson \<Rightarrow> ''json'' | KImage \<Rightarrow> ''image'' | KAudio \<Rightarrow> ''audio''
      | KVideo \<Rightarrow> ''video'' | KBinary \<Rightarrow> ''binary'' | KStream \<Rightarrow> ''stream'' | KUnknown \<Rightarrow> ''unknown'')"

text \<open>\<^verbatim>\<open>data?.choices?.[0]?.message?.content\<close>\<close>

definition openai_content :: "jsval \<Rightarrow> jsval" where
  "openai_content d =
     opt_prop (opt_prop (opt_prop (opt_prop d ''choices'') ''0'') ''message'') ''content''"

text \<open>
  \<^verbatim>\<open>function extractMainContent(data, contentType)\<close> of \<^verbatim>\<open>openFetch/route.ts\<close>; the
  chained route has no such function. The binary kinds build the record
  \<^verbatim>\<open>{ type, data, size: data.length, format: data.format }\<close>, reading the two properties
  without \<^verbatim>\<open>?.\<close>, which throws on \<^verbatim>\<open>null\<close>.
\<close>

definition describe_binary :: "jsval \<Rightarrow> ContentType \<Rightarrow> error + jsval" where
  "describe_binary d contentType =
     (case strict_prop d ''length'' of
        Inl e \<Rightarrow> Inl e
      | Inr len \<Rightarrow>
          (case strict_prop d ''format'' of
             Inl e \<Rightarrow> Inl e
           | Inr fmt \<Rightarrow>
               Inr (JObj [(''type'', JStr (ContentType_name contentType)), (''data'', d),
                          (''size'', len), (''format'', fmt)])))"

definition extractMainContent :: "jsval \<Rightarrow> ContentType \<Rightarrow> error + jsval" where
  "extractMainContent d contentType =
     (case contentType of
        KJson \<Rightarrow>
          (if truthy (openai_content d) then Inr (openai_content d)
           else if truthy (opt_prop d ''content'') then Inr (opt_prop d ''content'')
           else if truthy (opt_prop d ''data'') then Inr (opt_prop d ''data'')
           else if (case d of JArr xs \<Rightarrow> True | _ \<Rightarrow> False) then Inr d
           else Inr d)
      | KText \<Rightarrow> Inr d
      | KImage \<Rightarrow> describe_binary d contentType
      | KAudio \<Rightarrow> describe_binary d contentType
      | KVideo \<Rightarrow> describe_binary d contentType
      | KBinary \<Rightarrow> describe_binary d contentType
      | KStream \<Rightarrow> Inr (JObj [(''type'', JStr ''stream''), (''stream'', d)])
      | KUnknown \<Rightarrow> Inr d)"

section \<open>Transform registry\<close>

datatype route = ChainFetch | OpenFetch

datatype transform = ExtractOpenAIText | TextToSpeechPayload | Identity

text \<open>
  The three functions of the object literal \<^verbatim>\<open>transformFunctions\<close>. The two route
  files differ in the payload \<^verbatim>\<open>textToSpeechPayload\<close> builds.
\<close>

fun apply_transform :: "route \<Rightarrow> transform \<Rightarrow> jsval \<Rightarrow> jsval" where
  "apply_transform r ExtractOpenAIText d = js_or (openai_content d) d"
| "apply_transform ChainFetch TextToSpeechPayload d =
     JObj [(''model'', JStr ''tts-1''), (''voice'', JStr ''alloy''), (''input'', d)]"
| "apply_transform OpenFetch TextToSpeechPayload d =
     JObj [(''input'', JObj [(''text'', d)]), (''voice'', JStr ''alloy''), (''model'', JStr ''tts-1'')]"
| "apply_transform r Identity d = d"

text \<open>
  \<^verbatim>\<open>transformFunctions[name]\<close>. The registry is a plain object literal, so besides its
  three own properties the lookup finds the members of \<^verbatim>\<open>Object.prototype\<close>.
\<close>

datatype registry_entry = Registered transform | Inherited string | NotRegistered

definition registered_names :: "string list" where
  "registered_names = [''extractOpenAIText'', ''textToSpeechPayload'', ''identity'']"

definition transformFunctions :: "string \<Rightarrow> registry_entry" where
  "transformFunctions name =
     (if name = ''extractOpenAIText'' then Registered ExtractOpenAIText
      else if name = ''textToSpeechPayload'' then Registered TextToSpeechPayload
      else if name = ''identity'' then Registered Identity
      else if name \<in> set object_prototype_keys then Inherited name
      else NotRegistered)"

text \<open>
  The conversion of a value to a string, which the built-ins apply to an argument used
  as a property key. An array joins the strings of its elements with commas,
  \<^verbatim>\<open>undefined\<close> and \<^verbatim>\<open>null\<close> counting as empty; a plain object is \<^verbatim>\<open>[object Object]\<close>,
  unless it has an own property \<^verbatim>\<open>toString\<close>, which (not being a function) makes the
  conversion throw. A number of 22 digits or more is printed with an exponent, which is
  left out here.
\<close>

fun collect :: "(error + 'a) list \<Rightarrow> error + 'a list" where
  "collect [] = Inr []"
| "collect (r # rs) =
     (case r of
        Inl e \<Rightarrow> Inl e
      | Inr x \<Rightarrow> (case collect rs of Inl e \<Rightarrow> Inl e | Inr xs \<Rightarrow> Inr (x # xs)))"

fun to_string :: "jsval \<Rightarrow> error + string" where
  "to_string JUndefined = Inr ''undefined''"
| "to_string JNull = Inr ''null''"
| "to_string (JBool b) = Inr (if b then ''true'' else ''false'')"
| "to_string (JNum n) = (if \<bar>n\<bar> < 10 ^ 21 then Inr (show_int n) else Inl Unmodelled)"
| "to_string JNaN = Inr ''NaN''"
| "to_string (JStr s) = Inr s"
| "to_string (JArr xs) =
     (case collect (map (\<lambda>x. if nullish x then Inr [] else to_string x) xs) of
        Inl e \<Rightarrow> Inl e
      | Inr ss \<Rightarrow> Inr (join_with '','' ss))"
| "to_string (JObj kvs) =
     (if map_of kvs ''toString'' = None then Inr ''[object Object]'' else Inl TypeError)"
| "to_string (JBlob n) = Inr ''[object Blob]''"
| "to_string (JArrayBuffer n) = Inr ''[object ArrayBuffer]''"

text \<open>
  \<^verbatim>\<open>transformFunctions[name](data)\<close> when the lookup found an inherited member, called
  with the registry as receiver and \<open>data\<close> as only argument. \<^verbatim>\<open>__proto__\<close> yields the
  prototype object, which is not callable; \<^verbatim>\<open>__defineGetter__\<close> and
  \<^verbatim>\<open>__defineSetter__\<close> reject their missing second argument; \<^verbatim>\<open>toString\<close> and
  \<^verbatim>\<open>toLocaleString\<close> describe the receiver; \<^verbatim>\<open>isPrototypeOf\<close> answers \<^verbatim>\<open>false\<close> for every
  value of the model. \<^verbatim>\<open>hasOwnProperty\<close> and \<^verbatim>\<open>propertyIsEnumerable\<close> convert the
  argument to a key and tell whether it is one of the three registered names;
  \<^verbatim>\<open>__lookupGetter__\<close> and \<^verbatim>\<open>__lookupSetter__\<close> convert it likewise and find an accessor
  only under \<^verbatim>\<open>__proto__\<close>. \<^verbatim>\<open>constructor\<close> is \<^verbatim>\<open>Object\<close>, which returns an object as it
  is, a new empty object for \<^verbatim>\<open>undefined\<close> and \<^verbatim>\<open>null\<close>, and a wrapper object for any
  other primitive. The wrappers, the accessor functions and what \<^verbatim>\<open>valueOf\<close> returns
  (the registry) are values the model cannot hold.
\<close>

definition call_inherited :: "string \<Rightarrow> jsval \<Rightarrow> error + jsval" where
  "call_inherited name d =
     (if name = ''__proto__'' \<or> name = ''__defineGetter__'' \<or> name = ''__defineSetter__''
        then Inl TypeError
      else if name = ''toString'' \<or> name = ''toLocaleString'' then Inr (JStr ''[object Object]'')
      else if name = ''isPrototypeOf'' then Inr (JBool False)
      else if name = ''hasOwnProperty'' \<or> name = ''propertyIsEnumerable'' then
        (case to_string d of
           Inl e \<Rightarrow> Inl e
         | Inr key \<Rightarrow> Inr (JBool (key \<in> set registered_names)))
      else if name = ''__lookupGetter__'' \<or> name = ''__lookupSetter__'' then
        (case to_string d of
           Inl e \<Rightarrow> Inl e
         | Inr key \<Rightarrow> (if key = ''__proto__'' then Inl Unmodelled else Inr JUndefined))
      else if name = ''constructor'' then
        (if nullish d then Inr (JObj []) else if is_object d then Inr d else Inl Unmodelled)
      else Inl Unmodelled)"

text \<open>
  The transform stage of both routes:
  \<^verbatim>\<open>if (transformFn && transformFunctions[transformFn]) data = transformFunctions[transformFn](data)\<close>.
  \<open>None\<close> is an absent \<^verbatim>\<open>transformFn\<close>; the empty string is falsy.
\<close>

definition transform_stage :: "route \<Rightarrow> string option \<Rightarrow> jsval \<Rightarrow> error + jsval" where
  "transform_stage r transformFn d =
     (case transformFn of
        None \<Rightarrow> Inr d
      | Some name \<Rightarrow>
          (if name = [] then Inr d
           else (case transformFunctions name of
                   Registered t \<Rightarrow> Inr (apply_transform r t d)
                 | Inherited n \<Rightarrow> call_inherited n d
                 | NotRegistered \<Rightarrow> Inr d)))"

section \<open>Requests, responses and the network\<close>

datatype response_type = RJson | RText | RBlob | RArrayBuffer

definition response_type_name :: "response_type \<Rightarrow> string" where
  "response_type_name t =
     (case t of RJson \<Rightarrow> ''json'' | RText \<Rightarrow> ''text'' | RBlob \<Rightarrow> ''blob'' | RArrayBuffer \<Rightarrow> ''arrayBuffer'')"

text \<open>
  \<^verbatim>\<open>interface ApiRequestConfig\<close>; its field \<^verbatim>\<open>method\<close> is \<open>http_method\<close> here. An
  absent optional field is \<open>None\<close>, an absent \<^verbatim>\<open>body\<close> is \<open>JUndefined\<close>.
\<close>

record ApiRequestConfig =
  url :: string
  http_method :: string
  headers :: "(string \<times> string) list option"
  body :: jsval
  params :: "(string \<times> string) list option"
  responseType :: "response_type option"

text \<open>
  \<^verbatim>\<open>interface ApiResponse\<close>; its field \<^verbatim>\<open>headers\<close> is \<open>responseHeaders\<close> here, after the
  local variable it is filled from.
\<close>

record ApiResponse =
  data :: jsval
  status :: nat
  statusText :: string
  responseHeaders :: "(string \<times> string) list"
  simplifiedContent :: jsval
  contentType :: ContentType
  contentFormat :: "string option"

text \<open>
  What \<^verbatim>\<open>fetch\<close> is called with. \<open>w_body\<close> is the value \<^verbatim>\<open>JSON.stringify\<close> is applied to,
  \<open>None\<close> when the request is sent without a body.
\<close>

record wire_request =
  w_url :: string
  w_method :: string
  w_headers :: "(string \<times> string) list"
  w_body :: "jsval option"

text \<open>
  What \<^verbatim>\<open>fetch\<close> resolves to. \<open>r_headers\<close> are the entries of \<^verbatim>\<open>response.headers\<close>
  (names in lower case); \<open>r_json\<close> and \<open>r_text\<close> are the outcomes of \<^verbatim>\<open>response.json()\<close>
  and \<^verbatim>\<open>response.text()\<close>, \<open>Inl\<close> carrying the message of the error they throw.
\<close>

record http_response =
  r_status :: nat
  r_statusText :: string
  r_headers :: "(string \<times> string) list"
  r_json :: "string + jsval"
  r_text :: "string + string"

datatype fetch_result = FetchFailed string | Response http_response

text \<open>
  The network is a parameter: a function from its own state \<open>'w\<close> and the request to the
  outcome of the call and the next state, so that a reply may depend on everything sent
  before.
\<close>

type_synonym 'w fetch = "'w \<Rightarrow> wire_request \<Rightarrow> fetch_result \<times> 'w"

text \<open>\<^verbatim>\<open>response.ok\<close>\<close>

definition ok :: "http_response \<Rightarrow> bool" where
  "ok r = (200 \<le> r_status r \<and> r_status r \<le> 299)"

text \<open>\<^verbatim>\<open>Object.fromEntries(response.headers.entries())\<close>\<close>

definition from_entries :: "(string \<times> string) list \<Rightarrow> (string \<times> string) list" where
  "from_entries es = foldl (\<lambda>acc kv. assign (fst kv) (snd kv) acc) [] es"

text \<open>The \<^verbatim>\<open>switch (responseType)\<close> that reads the body.\<close>

definition read_body :: "response_type \<Rightarrow> http_response \<Rightarrow> string + jsval" where
  "read_body t r =
     (case t of
        RJson \<Rightarrow> r_json r
      | RText \<Rightarrow> (case r_text r of Inl m \<Rightarrow> Inl m | Inr s \<Rightarrow> Inr (JStr s))
      | RBlob \<Rightarrow> (case r_text r of Inl m \<Rightarrow> Inl m | Inr s \<Rightarrow> Inr (JBlob (length s)))
      | RArrayBuffer \<Rightarrow> (case r_text r of Inl m \<Rightarrow> Inl m | Inr s \<Rightarrow> Inr (JArrayBuffer (length s))))"

text \<open>\<^verbatim>\<open>new URLSearchParams(params).toString()\<close>: form encoding of each name and value.\<close>

definition hex_char :: "nat \<Rightarrow> char" where
  "hex_char d = ''0123456789ABCDEF'' ! d"

definition form_encode_char :: "char \<Rightarrow> string" where
  "form_encode_char c =
     (let n = (of_char c :: nat)
      in if (48 \<le> n \<and> n \<le> 57) \<or> (65 \<le> n \<and> n \<le> 90) \<or> (97 \<le> n \<and> n \<le> 122)
            \<or> c \<in> set ''*-._'' then [c]
         else if c = CHR '' '' then ''+''
         else [CHR ''%'', hex_char (n div 16), hex_char (n mod 16)])"

definition url_search_params :: "(string \<times> string) list \<Rightarrow> string" where
  "url_search_params ps =
     join_with ''&''
       (map (\<lambda>kv. concat (map form_encode_char (fst kv)) @ ''='' @ concat (map form_encode_char (snd kv))) ps)"

text \<open>The request both versions of \<^verbatim>\<open>makeApiCall\<close> hand to \<^verbatim>\<open>fetch\<close>.\<close>

definition build_request :: "ApiRequestConfig \<Rightarrow> wire_request" where
  "build_request config =
     \<lparr> w_url = (case params config of
                  None \<Rightarrow> url config
                | Some ps \<Rightarrow> url config @ ''?'' @ url_search_params ps),
       w_method = http_method config,
       w_headers = assign ''Content-Type'' ''application/json''
                     (case headers config of None \<Rightarrow> [] | Some hs \<Rightarrow> hs),
       w_body = (if truthy (body config) then Some (body config) else None) \<rparr>"

definition declared_type :: "ApiRequestConfig \<Rightarrow> response_type" where
  "declared_type config = (case responseType config of None \<Rightarrow> RJson | Some t \<Rightarrow> t)"

text \<open>
  \<^verbatim>\<open>makeApiCall\<close> of \<^verbatim>\<open>chainFetch/route.ts\<close>: a status outside 200..299 throws with
  the status, the status text and the body text; a body that cannot be read in the
  declared mode throws \<^verbatim>\<open>Failed to parse ...\<close>; otherwise the response record is built,
  with \<^verbatim>\<open>simplifiedContent: data\<close>.
\<close>

definition makeApiCall_chain :: "'w fetch \<Rightarrow> 'w \<Rightarrow> ApiRequestConfig \<Rightarrow> (error + ApiResponse) \<times> 'w" where
  "makeApiCall_chain fetch w config =
     (case fetch w (build_request config) of
        (FetchFailed m, w') \<Rightarrow> (Inl (Error m), w')
      | (Response r, w') \<Rightarrow>
          (let hs = from_entries (r_headers r)
           in if \<not> ok r then
                (case r_text r of
                   Inl m \<Rightarrow> (Inl (Error m), w')
                 | Inr errorText \<Rightarrow>
                     (Inl (Error (''HTTP Error: '' @ show_nat (r_status r) @ '' - '' @ r_statusText r
                                  @ [CHR 0x0A] @ ''Details: '' @ errorText)), w'))
              else
                (case read_body (declared_type config) r of
                   Inl m \<Rightarrow>
                     (Inl (Error (''Failed to parse '' @ response_type_name (declared_type config)
                                  @ '' response: '' @ m)), w')
                 | Inr d \<Rightarrow>
                     (Inr \<lparr> data = d, status = r_status r, statusText = r_statusText r,
                            responseHeaders = hs, simplifiedContent = d,
                            contentType = fst (getContentType hs),
                            contentFormat = snd (getContentType hs) \<rparr>, w'))))"

text \<open>
  \<^verbatim>\<open>makeApiCall\<close> of \<^verbatim>\<open>openFetch/route.ts\<close>: the same call, an error without the body
  text, the host's own error for an unreadable body, and
  \<^verbatim>\<open>simplifiedContent = extractMainContent(data, contentType)\<close>.
\<close>

definition makeApiCall_open :: "'w fetch \<Rightarrow> 'w \<Rightarrow> ApiRequestConfig \<Rightarrow> (error + ApiResponse) \<times> 'w" where
  "makeApiCall_open fetch w config =
     (case fetch w (build_request config) of
        (FetchFailed m, w') \<Rightarrow> (Inl (Error m), w')
      | (Response r, w') \<Rightarrow>
          (if \<not> ok r then
             (Inl (Error (''HTTP Error: '' @ show_nat (r_status r) @ '' - '' @ r_statusText r)), w')
           else
             (let hs = from_entries (r_headers r)
              in case read_body (declared_type config) r of
                   Inl m \<Rightarrow> (Inl (Error m), w')
                 | Inr d \<Rightarrow>
                     (case extractMainContent d (fst (getContentType hs)) of
                        Inl e \<Rightarrow> (Inl e, w')
                      | Inr simplified \<Rightarrow>
                          (Inr \<lparr> data = d, status = r_status r, statusText = r_statusText r,
                                 responseHeaders = hs, simplifiedContent = simplified,
                                 contentType = fst (getContentType hs),
                                 contentFormat = snd (getContentType hs) \<rparr>, w')))))"

section \<open>The chained endpoint\<close>

text \<open>An entry of \<^verbatim>\<open>ChainedApiConfig.transforms\<close>.\<close>

record ChainLink =
  extractPath :: "string list option"
  injectPath :: "string option"
  transformFn :: "string option"

record ChainedApiConfig =
  steps :: "ApiRequestConfig list"
  transforms :: "ChainLink list option"

text \<open>
  What a route answers: \<^verbatim>\<open>NextResponse.json(x)\<close> with status 200, an error body with
  status 401, or the body \<^verbatim>\<open>{ error, stack }\<close> built in the \<^verbatim>\<open>catch\<close> with status 500,
  which holds the message and the stack trace of the error caught and nothing else.
  \<open>OutsideModel\<close> stands for a run that ended in \<open>Unmodelled\<close>.
\<close>

datatype 'a reply = Json200 'a | Json401 string | Json500 error | OutsideModel

definition reply_of_error :: "error \<Rightarrow> 'a reply" where
  "reply_of_error e = (case e of Unmodelled \<Rightarrow> OutsideModel | _ \<Rightarrow> Json500 e)"

text \<open>
  The \<^verbatim>\<open>config.steps.map\<close> of \<^verbatim>\<open>POST\<close>: a step whose URL contains
  \<^verbatim>\<open>api.openai.com\<close> gets \<^verbatim>\<open>{ ...step.headers, 'Authorization': `Bearer ${accessToken}` }\<close>.
\<close>

definition add_access_token :: "string \<Rightarrow> ApiRequestConfig \<Rightarrow> ApiRequestConfig" where
  "add_access_token accessToken step =
     (if str_includes (url step) ''api.openai.com''
      then step\<lparr> headers := Some (assign ''Authorization'' (''Bearer '' @ accessToken)
                                    (case headers step of None \<Rightarrow> [] | Some hs \<Rightarrow> hs)) \<rparr>
      else step)"

text \<open>
  The end of the chain-link processing, the same in both routes:
  \<^verbatim>\<open>if (injectPath) step.body = injectAtPath(step.body || {}, injectPath, d); else step.body = d\<close>.
\<close>

definition inject_stage :: "string option \<Rightarrow> ApiRequestConfig \<Rightarrow> jsval \<Rightarrow> error + ApiRequestConfig" where
  "inject_stage path step d =
     (case path of
        None \<Rightarrow> Inr (step\<lparr> body := d \<rparr>)
      | Some p \<Rightarrow>
          (if p = [] then Inr (step\<lparr> body := d \<rparr>)
           else (case injectAtPath (js_or (body step) (JObj [])) p d of
                   Inl e \<Rightarrow> Inl e
                 | Inr b \<Rightarrow> Inr (step\<lparr> body := b \<rparr>))))"

text \<open>
  The body of \<^verbatim>\<open>if (i > 0 && transform && currentData) { ... }\<close>: extract from the
  previous response when a path is given, transform, inject.
\<close>

definition link_step :: "ChainLink \<Rightarrow> jsval \<Rightarrow> ApiRequestConfig \<Rightarrow> error + ApiRequestConfig" where
  "link_step transform currentData step =
     (case (case extractPath transform of
              None \<Rightarrow> Inr currentData
            | Some p \<Rightarrow> extractByPath currentData p) of
        Inl e \<Rightarrow> Inl e
      | Inr extracted \<Rightarrow>
          (case transform_stage ChainFetch (transformFn transform) extracted of
             Inl e \<Rightarrow> Inl e
           | Inr transformed \<Rightarrow> inject_stage (injectPath transform) step transformed))"

text \<open>\<^verbatim>\<open>config.transforms?.[i]\<close>\<close>

definition link_at :: "ChainLink list option \<Rightarrow> nat \<Rightarrow> ChainLink option" where
  "link_at ts i =
     (case ts of
        None \<Rightarrow> None
      | Some l \<Rightarrow> (if i < length l then Some (l ! i) else None))"

text \<open>What iteration \<open>i\<close> of the loop does to \<^verbatim>\<open>config.steps[i]\<close> before the call.\<close>

definition prepare_step ::
  "ChainLink list option \<Rightarrow> nat \<Rightarrow> jsval \<Rightarrow> ApiRequestConfig \<Rightarrow> error + ApiRequestConfig" where
  "prepare_step ts i currentData step =
     (case link_at ts i of
        None \<Rightarrow> Inr step
      | Some transform \<Rightarrow>
          (if i > 0 \<and> truthy currentData then link_step transform currentData step else Inr step))"

text \<open>
  A call of \<^verbatim>\<open>makeApiCall\<close>: the configuration it was given and what it returned or
  threw. The routes return, next to their reply, the calls they made, in order.
\<close>

type_synonym call = "ApiRequestConfig \<times> (error + ApiResponse)"

text \<open>
  The loop \<^verbatim>\<open>for (let i = 0; i < config.steps.length; i++)\<close>, from iteration \<open>i\<close> on:
  \<open>rest\<close> are the steps from index \<open>i\<close>, \<open>currentData\<close> is the variable of that name. An
  exception leaves the loop and drops \<^verbatim>\<open>responses\<close>.
\<close>

fun run_chain ::
  "'w fetch \<Rightarrow> ChainLink list option \<Rightarrow> nat \<Rightarrow> ApiRequestConfig list \<Rightarrow> jsval \<Rightarrow> 'w
     \<Rightarrow> (error + ApiResponse list) \<times> call list \<times> 'w" where
  "run_chain fetch ts i [] currentData w = (Inr [], [], w)"
| "run_chain fetch ts i (step # rest) currentData w =
     (case prepare_step ts i currentData step of
        Inl e \<Rightarrow> (Inl e, [], w)
      | Inr step' \<Rightarrow>
          (case makeApiCall_chain fetch w step' of
             (Inl e, w') \<Rightarrow> (Inl e, [(step', Inl e)], w')
           | (Inr response, w') \<Rightarrow>
               (case run_chain fetch ts (Suc i) rest (data response) w' of
                  (Inl e, calls, w'') \<Rightarrow> (Inl e, (step', Inr response) # calls, w'')
                | (Inr responses, calls, w'') \<Rightarrow>
                    (Inr (response # responses), (step', Inr response) # calls, w''))))"

text \<open>
  \<^verbatim>\<open>export async function POST(req)\<close> of \<^verbatim>\<open>chainFetch/route.ts\<close>. \<open>sub\<close> is
  \<^verbatim>\<open>token?.sub\<close>, \<open>accessToken\<close> what \<^verbatim>\<open>getValidAccessToken(token.sub)\<close> resolves to
  (\<open>None\<close> for \<^verbatim>\<open>null\<close>), \<open>req_json\<close> the outcome of \<^verbatim>\<open>req.json()\<close>.
\<close>

definition POST_chainFetch ::
  "'w fetch \<Rightarrow> 'w \<Rightarrow> string option \<Rightarrow> string option \<Rightarrow> string + ChainedApiConfig
     \<Rightarrow> ApiResponse list reply \<times> call list \<times> 'w" where
  "POST_chainFetch fetch w sub accessToken req_json =
     (if sub = None \<or> sub = Some [] then (Json401 ''Authentication required'', [], w)
      else if accessToken = None \<or> accessToken = Some []
        then (Json401 ''Failed to get valid access token'', [], w)
      else (case req_json of
              Inl m \<Rightarrow> (Json500 (Error m), [], w)
            | Inr config \<Rightarrow>
                (case run_chain fetch (transforms config) 0
                        (map (add_access_token (the accessToken)) (steps config)) JNull w of
                   (Inl e, calls, w') \<Rightarrow> (reply_of_error e, calls, w')
                 | (Inr responses, calls, w') \<Rightarrow> (Json200 responses, calls, w'))))"

section \<open>The single/double-hop endpoint\<close>

text \<open>
  \<^verbatim>\<open>chainConfig\<close> of \<^verbatim>\<open>openFetch/route.ts\<close>: a chain link and the follow-up request
  \<^verbatim>\<open>next\<close>. A \<^verbatim>\<open>chainConfig\<close> inside \<^verbatim>\<open>next\<close> is never read.
\<close>

record ChainConfig = ChainLink +
  next_config :: "ApiRequestConfig option"

record OpenFetchConfig =
  request :: ApiRequestConfig
  chainConfig :: "ChainConfig option"

text \<open>The first response, and \<^verbatim>\<open>response.chainedResponse\<close> when it was set.\<close>

record StepResponse =
  response :: ApiResponse
  chainedResponse :: "ApiResponse option"

text \<open>
  The branch \<^verbatim>\<open>if (config.chainConfig?.next) { ... }\<close> up to the second call:
  \<^verbatim>\<open>transformFn\<close> defaults to \<^verbatim>\<open>identity\<close>, the data is extracted from the raw body when
  a path is given and is the simplified content otherwise.
\<close>

definition next_request :: "ChainConfig \<Rightarrow> ApiRequestConfig \<Rightarrow> ApiResponse \<Rightarrow> error + ApiRequestConfig" where
  "next_request cc nxt first =
     (case (case extractPath cc of
              Some p \<Rightarrow> extractByPath (data first) p
            | None \<Rightarrow> Inr (simplifiedContent first)) of
        Inl e \<Rightarrow> Inl e
      | Inr chainedData \<Rightarrow>
          (case transform_stage OpenFetch
                  (case transformFn cc of None \<Rightarrow> Some ''identity'' | Some n \<Rightarrow> Some n) chainedData of
             Inl e \<Rightarrow> Inl e
           | Inr transformed \<Rightarrow> inject_stage (injectPath cc) nxt transformed))"

text \<open>\<^verbatim>\<open>export async function POST(req)\<close> of \<^verbatim>\<open>openFetch/route.ts\<close>.\<close>

definition POST_openFetch ::
  "'w fetch \<Rightarrow> 'w \<Rightarrow> string + OpenFetchConfig \<Rightarrow> StepResponse reply \<times> call list \<times> 'w" where
  "POST_openFetch fetch w req_json =
     (case req_json of
        Inl m \<Rightarrow> (Json500 (Error m), [], w)
      | Inr config \<Rightarrow>
          (case makeApiCall_open fetch w (request config) of
             (Inl e, w1) \<Rightarrow> (reply_of_error e, [(request config, Inl e)], w1)
           | (Inr first, w1) \<Rightarrow>
               (case (case chainConfig config of None \<Rightarrow> None | Some cc \<Rightarrow> next_config cc) of
                  None \<Rightarrow>
                    (Json200 \<lparr> response = first, chainedResponse = None \<rparr>,
                     [(request config, Inr first)], w1)
                | Some nxt \<Rightarrow>
                    (case next_request (the (chainConfig config)) nxt first of
                       Inl e \<Rightarrow> (reply_of_error e, [(request config, Inr first)], w1)
                     | Inr nextConfig \<Rightarrow>
                         (case makeApiCall_open fetch w1 nextConfig of
                            (Inl e, w2) \<Rightarrow>
                              (reply_of_error e,
                               [(request config, Inr first), (nextConfig, Inl e)], w2)
                          | (Inr second, w2) \<Rightarrow>
                              (Json200 \<lparr> response = first, chainedResponse = Some second \<rparr>,
                               [(request config, Inr first), (nextConfig, Inr second)], w2))))))"

section \<open>A sample network\<close>

text \<open>
  A network for the examples: four hosts that answer with JSON, one that answers with
  status 500, and no route to any other. Its state counts the requests it has seen.
\<close>

definition json_ok :: "jsval \<Rightarrow> string \<Rightarrow> http_response" where
  "json_ok v txt =
     \<lparr> r_status = 200, r_statusText = ''OK'',
       r_headers = [(''content-type'', ''application/json'')],
       r_json = Inr v, r_text = Inr txt \<rparr>"

definition item_body :: jsval where
  "item_body = JObj [(''data'', JObj [(''id'', JStr ''x1'')])]"

definition chat_body :: jsval where
  "chat_body = JObj [(''choices'', JArr [JObj [(''message'', JObj [(''content'', JStr ''hi'')])]])]"

definition sample_fetch :: "nat fetch" where
  \<open>sample_fetch n rq =
     (if w_url rq = ''https://a.test/item''
        then (Response (json_ok item_body ''{"data":{"id":"x1"}}''), Suc n)
      else if w_url rq = ''https://b.test/related''
        then (Response (json_ok (JObj [(''ok'', JBool True)]) ''{"ok":true}''), Suc n)
      else if w_url rq = ''https://llm.test/chat''
        then (Response (json_ok chat_body ''{"choices":[{"message":{"content":"hi"}}]}''), Suc n)
      else if w_url rq = ''https://zero.test/count''
        then (Response (json_ok (JNum 0) ''0''), Suc n)
      else if w_url rq = ''https://down.test/''
        then (Response \<lparr> r_status = 500, r_statusText = ''Internal Server Error'',
                          r_headers = [(''content-type'', ''text/plain'')],
                          r_json = Inl ''Unexpected token'', r_text = Inr ''boom'' \<rparr>, Suc n)
      else (FetchFailed ''fetch failed'', Suc n))\<close>

definition get_step :: "string \<Rightarrow> ApiRequestConfig" where
  "get_step u =
     \<lparr> url = u, http_method = ''GET'', headers = None, body = JUndefined, params = None,
       responseType = None \<rparr>"

definition post_step :: "string \<Rightarrow> ApiRequestConfig" where
  "post_step u =
     \<lparr> url = u, http_method = ''POST'', headers = None, body = JUndefined, params = None,
       responseType = None \<rparr>"

section \<open>Notions of the specification\<close>

text \<open>
  The round trip \<^verbatim>\<open>extractByPath(injectAtPath(clone(m), p, v), p.split('.'))\<close>. Values
  of the model are immutable, so the clone is the value itself.
\<close>

definition path_round_trip :: "jsval \<Rightarrow> string \<Rightarrow> jsval \<Rightarrow> error + jsval" where
  "path_round_trip m p v =
     (case injectAtPath m p v of
        Inl e \<Rightarrow> Inl e
      | Inr m' \<Rightarrow> extractByPath m' (split_on CHR ''.'' p))"

text \<open>The chain of fresh mappings \<^verbatim>\<open>{k1: {k2: ... {last: v}}}\<close>.\<close>

fun nest :: "string list \<Rightarrow> string \<Rightarrow> jsval \<Rightarrow> jsval" where
  "nest [] l v = JObj [(l, v)]"
| "nest (k # ks) l v = JObj [(k, nest ks l v)]"

text \<open>
  \<open>walk m ks\<close>: the value found by following the keys \<open>ks\<close> from \<open>m\<close>, when every key on
  the way holds a truthy value; the reducer of \<^verbatim>\<open>injectAtPath\<close> then arrives there
  without creating anything.
\<close>

fun walk :: "jsval \<Rightarrow> string list \<Rightarrow> jsval option" where
  "walk acc [] = Some acc"
| "walk acc (k # ks) =
     (case get_prop acc k of
        Inl e \<Rightarrow> None
      | Inr c \<Rightarrow> (if truthy c then walk c ks else None))"

text \<open>
  \<open>injectable m ks l\<close>: the path with intermediate keys \<open>ks\<close> and last key \<open>l\<close> stays
  on entries of mappings and on elements of arrays. Following \<open>ks\<close> from \<open>m\<close>, every
  value met is a mapping, or an array that the next key enters at an index, until an
  entry is missing or holds a falsy value, from where the remaining keys are created
  in fresh mappings; no intermediate key meets a member that a mapping inherits from
  \<^verbatim>\<open>Object.prototype\<close> instead of an entry; and the last key is written as an entry of a
  mapping (any key but a \<^verbatim>\<open>__proto__\<close> that the mapping does not hold as an entry) or at
  an index of an array.
\<close>

fun injectable :: "jsval \<Rightarrow> string list \<Rightarrow> string \<Rightarrow> bool" where
  "injectable (JObj kvs) [] l = (if l = ''__proto__'' then map_of kvs l \<noteq> None else True)"
| "injectable (JArr xs) [] l = (parse_index l \<noteq> None)"
| "injectable (JObj kvs) (k # ks) l =
     (case map_of kvs k of
        Some c \<Rightarrow> (if truthy c then injectable c ks l else injectable (JObj []) ks l)
      | None \<Rightarrow> k \<notin> set object_prototype_keys \<and> injectable (JObj []) ks l)"
| "injectable (JArr xs) (k # ks) l =
     (case parse_index k of
        Some i \<Rightarrow> (if i < length xs \<and> truthy (xs ! i) then injectable (xs ! i) ks l
                   else injectable (JObj []) ks l)
      | None \<Rightarrow> False)"
| "injectable v ks l = False"

text \<open>
  The subtype of a media type \<^verbatim>\<open>type/subtype; parameters\<close>, as the specification speaks
  of it: what follows the first \<^verbatim>\<open>/\<close>, up to the parameters.
\<close>

definition media_subtype :: "string \<Rightarrow> string" where
  "media_subtype v =
     takeWhile (\<lambda>c. c \<notin> set ''; '') (drop 1 (dropWhile (\<lambda>c. c \<noteq> CHR ''/'') v))"

text \<open>
  The target host of a URL, as the specification speaks of it: what stands between
  \<^verbatim>\<open>://\<close> and the next \<^verbatim>\<open>/\<close>, \<^verbatim>\<open>?\<close> or \<^verbatim>\<open>#\<close>, without user information and port.
\<close>

fun after_scheme :: "string \<Rightarrow> string" where
  "after_scheme [] = []"
| "after_scheme (c # cs) = (if starts_with (c # cs) ''://'' then drop 3 (c # cs) else after_scheme cs)"

definition url_host :: "string \<Rightarrow> string" where
  "url_host u =
     takeWhile (\<lambda>c. c \<noteq> CHR '':'')
       (last (split_on CHR ''@'' (takeWhile (\<lambda>c. c \<notin> set ''/?#'') (after_scheme u))))"

text \<open>
  The value of the variable \<^verbatim>\<open>currentData\<close> at the start of iteration \<open>j\<close> of a run that
  began with \<open>cd\<close> and has made the calls \<open>calls\<close>: the raw body of the response of call
  \<open>j - 1\<close>.
\<close>

definition current_data :: "jsval \<Rightarrow> call list \<Rightarrow> nat \<Rightarrow> jsval" where
  "current_data cd calls j =
     (if j = 0 then cd
      else (case snd (calls ! (j - 1)) of Inr r \<Rightarrow> data r | Inl e \<Rightarrow> JUndefined))"

text \<open>Sample chain links and pipelines over the sample network.\<close>

definition id_link :: ChainLink where
  "id_link = \<lparr> extractPath = None, injectPath = None, transformFn = None \<rparr>"

definition related_link :: ChainLink where
  "related_link =
     \<lparr> extractPath = Some [''data'', ''id''], injectPath = Some ''relatedId'', transformFn = None \<rparr>"

definition two_steps :: "ApiRequestConfig list" where
  "two_steps = [get_step ''https://a.test/item'', post_step ''https://b.test/related'']"

definition failing_steps :: "ApiRequestConfig list" where
  "failing_steps =
     [get_step ''https://a.test/item'', get_step ''https://down.test/'',
      post_step ''https://b.test/related'']"

definition zero_steps :: "ApiRequestConfig list" where
  "zero_steps =
     [get_step ''https://zero.test/count'',
      (post_step ''https://b.test/related'')\<lparr> body := JObj [(''keep'', JNum 1)] \<rparr>]"

definition identity_hop :: OpenFetchConfig where
  "identity_hop =
     \<lparr> request = post_step ''https://llm.test/chat'',
       chainConfig = Some \<lparr> extractPath = None, injectPath = None, transformFn = Some ''identity'',
                            next_config = Some (post_step ''https://b.test/related'') \<rparr> \<rparr>"

section \<open>Properties\<close>

subsection \<open>Strings\<close>

text \<open>\<open>str_includes\<close> is the substring relation, and \<open>split_on\<close> cuts at every separator.\<close>

lemma starts_with_iff: "starts_with s t \<longleftrightarrow> (\<exists>q. s = t @ q)"
  by (induction s t rule: starts_with.induct) auto

lemma str_includes_iff: "str_includes s t \<longleftrightarrow> (\<exists>p q. s = p @ t @ q)"
proof (induction s)
  case Nil
  then show ?case by simp
next
  case (Cons c cs)
  show ?case
  proof
    assume "str_includes (c # cs) t"
    then consider "starts_with (c # cs) t" | "str_includes cs t" by auto
    then show "\<exists>p q. c # cs = p @ t @ q"
    proof cases
      case 1
      then obtain q where "c # cs = t @ q" by (auto simp: starts_with_iff)
      then have "c # cs = [] @ t @ q" by simp
      then show ?thesis by blast
    next
      case 2
      then obtain p q where "cs = p @ t @ q" using Cons.IH by blast
      then have "c # cs = (c # p) @ t @ q" by simp
      then show ?thesis by blast
    qed
  next
    assume "\<exists>p q. c # cs = p @ t @ q"
    then obtain p q where pq: "c # cs = p @ t @ q" by blast
    show "str_includes (c # cs) t"
    proof (cases p)
      case Nil
      then have "starts_with (c # cs) t" using pq by (auto simp: starts_with_iff)
      then show ?thesis by simp
    next
      case (Cons a p')
      then have "cs = p' @ t @ q" using pq by simp
      then have "str_includes cs t" using Cons.IH by blast
      then show ?thesis by simp
    qed
  qed
qed

lemma split_on_nonempty: "split_on c s \<noteq> []"
  by (induction s) (auto split: list.splits)

lemma split_on_no_sep: "c \<notin> set s \<Longrightarrow> split_on c s = [s]"
  by (induction s) auto

lemma split_on_append: "c \<notin> set a \<Longrightarrow> split_on c (a @ c # s) = a # split_on c s"
  by (induction a) auto

lemma split_on_decompose:
  "\<exists>p. c \<notin> set p \<and> (s = p \<and> split_on c s = [p] \<or> (\<exists>t. s = p @ c # t \<and> split_on c s = p # split_on c t))"
proof (induction s)
  case Nil
  then show ?case by simp
next
  case (Cons x xs)
  show ?case
  proof (cases "x = c")
    case True
    have "c \<notin> set [] \<and> (\<exists>t. x # xs = [] @ c # t \<and> split_on c (x # xs) = [] # split_on c t)"
      using True by simp
    then show ?thesis by blast
  next
    case False
    obtain p where p: "c \<notin> set p"
      "xs = p \<and> split_on c xs = [p] \<or> (\<exists>t. xs = p @ c # t \<and> split_on c xs = p # split_on c t)"
      using Cons.IH by blast
    have "c \<notin> set (x # p)" using p(1) False by simp
    moreover have "(x # xs = x # p \<and> split_on c (x # xs) = [x # p])
       \<or> (\<exists>t. x # xs = (x # p) @ c # t \<and> split_on c (x # xs) = (x # p) # split_on c t)"
      using p(2) False by auto
    ultimately show ?thesis by blast
  qed
qed

lemma format_of_Some:
  "format_of s = Some f \<longleftrightarrow>
     (\<exists>a r. s = a @ CHR ''/'' # f @ r \<and> CHR ''/'' \<notin> set a \<and> CHR ''/'' \<notin> set f \<and> (r = [] \<or> hd r = CHR ''/''))"
proof
  assume fs: "format_of s = Some f"
  obtain a where a: "CHR ''/'' \<notin> set a"
    "s = a \<and> split_on CHR ''/'' s = [a] \<or> (\<exists>t. s = a @ CHR ''/'' # t \<and> split_on CHR ''/'' s = a # split_on CHR ''/'' t)"
    using split_on_decompose[of "CHR ''/''" s] by blast
  have "split_on CHR ''/'' s \<noteq> [a]" using fs by (auto simp: format_of_def)
  then obtain t where t: "s = a @ CHR ''/'' # t" "split_on CHR ''/'' s = a # split_on CHR ''/'' t"
    using a(2) by blast
  obtain b where b: "CHR ''/'' \<notin> set b"
    "t = b \<and> split_on CHR ''/'' t = [b] \<or> (\<exists>u. t = b @ CHR ''/'' # u \<and> split_on CHR ''/'' t = b # split_on CHR ''/'' u)"
    using split_on_decompose[of "CHR ''/''" t] by blast
  have hd_b: "\<exists>rest. split_on CHR ''/'' t = b # rest" using b(2) by blast
  then have "format_of s = Some b" using t(2) by (auto simp: format_of_def)
  then have bf: "b = f" using fs by simp
  have "\<exists>r. t = b @ r \<and> (r = [] \<or> hd r = CHR ''/'')" using b(2) by auto
  then obtain r where "t = f @ r" "r = [] \<or> hd r = CHR ''/''" using bf by blast
  then show "\<exists>a r. s = a @ CHR ''/'' # f @ r \<and> CHR ''/'' \<notin> set a \<and> CHR ''/'' \<notin> set f \<and> (r = [] \<or> hd r = CHR ''/'')"
    using t(1) a(1) b(1) bf by blast
next
  assume "\<exists>a r. s = a @ CHR ''/'' # f @ r \<and> CHR ''/'' \<notin> set a \<and> CHR ''/'' \<notin> set f \<and> (r = [] \<or> hd r = CHR ''/'')"
  then obtain a r where h: "s = a @ CHR ''/'' # f @ r" "CHR ''/'' \<notin> set a" "CHR ''/'' \<notin> set f" "r = [] \<or> hd r = CHR ''/''"
    by blast
  have "\<exists>rest. split_on CHR ''/'' (f @ r) = f # rest"
  proof (cases r)
    case Nil
    then show ?thesis using h(3) by (simp add: split_on_no_sep)
  next
    case (Cons x xs)
    then have "x = CHR ''/''" using h(4) by simp
    then show ?thesis using h(3) Cons by (simp add: split_on_append)
  qed
  then obtain rest where "split_on CHR ''/'' (f @ r) = f # rest" by blast
  then have "split_on CHR ''/'' s = a # f # rest"
    using h(1,2) by (simp add: split_on_append)
  then show "format_of s = Some f" by (simp add: format_of_def)
qed

lemma format_of_includes:
  assumes "str_includes s (k @ ''/'')"
  shows "\<exists>f. format_of s = Some f"
proof -
  obtain p q where "s = p @ (k @ ''/'') @ q" using assms by (auto simp: str_includes_iff)
  then have sl: "CHR ''/'' \<in> set s" by simp
  obtain a where a: "CHR ''/'' \<notin> set a"
    "s = a \<and> split_on CHR ''/'' s = [a] \<or> (\<exists>t. s = a @ CHR ''/'' # t \<and> split_on CHR ''/'' s = a # split_on CHR ''/'' t)"
    using split_on_decompose[of "CHR ''/''" s] by blast
  then obtain t where t: "split_on CHR ''/'' s = a # split_on CHR ''/'' t" using sl by blast
  obtain b rest where "split_on CHR ''/'' t = b # rest"
    using split_on_nonempty[of "CHR ''/''" t] by (cases "split_on CHR ''/'' t") auto
  then show ?thesis using t by (simp add: format_of_def)
qed

subsection \<open>Objects\<close>

text \<open>
  A write of a key sets that key and no other, and writing the same key twice is
  writing it once. For a key that is no array index, \<open>assign\<close> replaces the entry or adds
  it last.
\<close>

lemma parse_index_not_length: "parse_index ''length'' = None"
  by (simp add: parse_index_def decimal_value_def is_digit_def)

lemma parse_index_not_proto: "parse_index ''__proto__'' = None"
  by (simp add: parse_index_def decimal_value_def is_digit_def)

lemma proto_key_proto: "''__proto__'' \<in> set object_prototype_keys"
  by (simp add: object_prototype_keys_def)

lemma map_of_replace_key:
  "map_of kvs k \<noteq> None \<Longrightarrow> map_of (replace_key k v kvs) j = (if j = k then Some v else map_of kvs j)"
  by (induction kvs) auto

lemma map_of_insert_key:
  "map_of kvs k = None \<Longrightarrow> map_of (insert_key k v kvs) j = (if j = k then Some v else map_of kvs j)"
  by (induction kvs) (auto split: option.splits if_splits)

lemma map_of_assign: "map_of (assign k v al) = (map_of al)(k \<mapsto> v)"
  by (rule ext) (simp add: assign_def map_of_replace_key map_of_insert_key)

lemma replace_key_replace_key: "replace_key k v (replace_key k u al) = replace_key k v al"
  by (induction al) auto

lemma replace_key_insert_key:
  "map_of al k = None \<Longrightarrow> replace_key k v (insert_key k u al) = insert_key k v al"
  by (induction al) (auto split: option.splits)

lemma assign_assign: "assign k v (assign k u al) = assign k v al"
proof (cases "map_of al k")
  case None
  then have "map_of (insert_key k u al) k \<noteq> None" by (simp add: map_of_insert_key)
  then show ?thesis using None by (auto simp: assign_def replace_key_insert_key)
next
  case (Some x)
  then have "map_of (replace_key k u al) k \<noteq> None" by (simp add: map_of_replace_key)
  then show ?thesis using Some by (auto simp: assign_def replace_key_replace_key)
qed

lemma assign_Nil: "assign k v [] = [(k, v)]"
  by (simp add: assign_def)

lemma assign_plain:
  "parse_index k = None \<Longrightarrow>
     assign k v (p # ps) = (if fst p = k then (k, v) # ps else p # assign k v ps)"
  by (cases p) (auto simp: assign_def)

lemma plain_keys:
  "parse_index ''content-type'' = None" "parse_index ''Content-Type'' = None"
  "parse_index ''Authorization'' = None" "parse_index ''relatedId'' = None"
  by (simp_all add: parse_index_def decimal_value_def is_digit_def)

lemmas assign_eval = assign_Nil assign_plain plain_keys

subsection \<open>Content classifier\<close>

text \<open>
  C6, as the code has it: \<open>getContentType\<close> is a total function of the header mapping.
  It tests the value of the \<^verbatim>\<open>content-type\<close> header (the empty string when there is
  none) for the substrings
  \<^verbatim>\<open>application/json\<close>, \<^verbatim>\<open>text/\<close>, \<^verbatim>\<open>image/\<close>, \<^verbatim>\<open>audio/\<close>, \<^verbatim>\<open>video/\<close>,
  \<^verbatim>\<open>application/octet-stream\<close> in this order, and the first that occurs decides the kind:
  json, text, image, audio, video, binary, and unknown when none occurs. The kind is never
  stream. For image, audio and video the format is the piece of the header value between
  its first \<^verbatim>\<open>/\<close> and the next one (or the end), parameters included; for every other kind
  there is no format.
\<close>

theorem getContentType_ordered_tests:
  "getContentType hs =
     (if \<exists>p q. content_type_header hs = p @ ''application/json'' @ q then (KJson, None)
      else if \<exists>p q. content_type_header hs = p @ ''text/'' @ q then (KText, None)
      else if \<exists>p q. content_type_header hs = p @ ''image/'' @ q
        then (KImage, format_of (content_type_header hs))
      else if \<exists>p q. content_type_header hs = p @ ''audio/'' @ q
        then (KAudio, format_of (content_type_header hs))
      else if \<exists>p q. content_type_header hs = p @ ''video/'' @ q
        then (KVideo, format_of (content_type_header hs))
      else if \<exists>p q. content_type_header hs = p @ ''application/octet-stream'' @ q
        then (KBinary, None)
      else (KUnknown, None))
   \<and> fst (getContentType hs) \<noteq> KStream
   \<and> (fst (getContentType hs) \<in> {KImage, KAudio, KVideo} \<longrightarrow>
        (\<exists>a f r. content_type_header hs = a @ CHR ''/'' # f @ r
           \<and> CHR ''/'' \<notin> set a \<and> CHR ''/'' \<notin> set f \<and> (r = [] \<or> hd r = CHR ''/'')
           \<and> snd (getContentType hs) = Some f))
   \<and> (fst (getContentType hs) \<notin> {KImage, KAudio, KVideo} \<longrightarrow>
        snd (getContentType hs) = None)"
proof -
  let ?ct = "content_type_header hs"
  have eq: "getContentType hs =
     (if \<exists>p q. ?ct = p @ ''application/json'' @ q then (KJson, None)
      else if \<exists>p q. ?ct = p @ ''text/'' @ q then (KText, None)
      else if \<exists>p q. ?ct = p @ ''image/'' @ q then (KImage, format_of ?ct)
      else if \<exists>p q. ?ct = p @ ''audio/'' @ q then (KAudio, format_of ?ct)
      else if \<exists>p q. ?ct = p @ ''video/'' @ q then (KVideo, format_of ?ct)
      else if \<exists>p q. ?ct = p @ ''application/octet-stream'' @ q then (KBinary, None)
      else (KUnknown, None))"
    by (simp only: getContentType_def Let_def str_includes_iff)
  have ns: "fst (getContentType hs) \<noteq> KStream"
    by (simp add: getContentType_def Let_def)
  have fm: "\<exists>f. format_of ?ct = Some f" if "fst (getContentType hs) \<in> {KImage, KAudio, KVideo}"
  proof -
    have "str_includes ?ct (''image'' @ ''/'') \<or> str_includes ?ct (''audio'' @ ''/'') \<or> str_includes ?ct (''video'' @ ''/'')"
      using that by (simp add: getContentType_def Let_def split: if_splits)
    then show ?thesis using format_of_includes by blast
  qed
  have sf: "snd (getContentType hs) = format_of ?ct" if "fst (getContentType hs) \<in> {KImage, KAudio, KVideo}"
    using that by (simp add: getContentType_def Let_def split: if_splits)
  have c3: "fst (getContentType hs) \<in> {KImage, KAudio, KVideo} \<longrightarrow>
        (\<exists>a f r. ?ct = a @ CHR ''/'' # f @ r
           \<and> CHR ''/'' \<notin> set a \<and> CHR ''/'' \<notin> set f \<and> (r = [] \<or> hd r = CHR ''/'')
           \<and> snd (getContentType hs) = Some f)"
  proof
    assume k: "fst (getContentType hs) \<in> {KImage, KAudio, KVideo}"
    then obtain f where f: "format_of ?ct = Some f" using fm by blast
    then obtain a r where "?ct = a @ CHR ''/'' # f @ r" "CHR ''/'' \<notin> set a" "CHR ''/'' \<notin> set f" "r = [] \<or> hd r = CHR ''/''"
      using format_of_Some by blast
    then show "\<exists>a f r. ?ct = a @ CHR ''/'' # f @ r
           \<and> CHR ''/'' \<notin> set a \<and> CHR ''/'' \<notin> set f \<and> (r = [] \<or> hd r = CHR ''/'')
           \<and> snd (getContentType hs) = Some f"
      using sf[OF k] f by auto
  qed
  have c4: "fst (getContentType hs) \<notin> {KImage, KAudio, KVideo} \<longrightarrow> snd (getContentType hs) = None"
    by (simp add: getContentType_def Let_def)
  show ?thesis using eq ns c3 c4 by blast
qed

text \<open>
  The two header values of the claim: \<^verbatim>\<open>application/json; charset=utf-8\<close> is json, and
  \<^verbatim>\<open>image/png\<close> is an image of format \<^verbatim>\<open>png\<close>, not binary.
\<close>

theorem getContentType_ordered_tests_witness:
  "getContentType [(''content-type'', ''application/json; charset=utf-8'')] = (KJson, None)
   \<and> getContentType [(''content-type'', ''image/png'')] = (KImage, Some ''png'')
   \<and> (\<exists>a r. content_type_header [(''content-type'', ''image/png'')] = a @ CHR ''/'' # ''png'' @ r
          \<and> CHR ''/'' \<notin> set a \<and> (r = [] \<or> hd r = CHR ''/''))"
proof -
  let ?h = "[(''content-type'', ''image/png'')]"
  have img: "getContentType ?h = (KImage, Some ''png'')"
    by (simp add: getContentType_def content_type_header_def format_of_def)
  have js: "getContentType [(''content-type'', ''application/json; charset=utf-8'')] = (KJson, None)"
    by (simp add: getContentType_def content_type_header_def)
  have prem: "fst (getContentType ?h) \<in> {KImage, KAudio, KVideo}"
    by (simp add: img)
  have "\<exists>a f r. content_type_header ?h = a @ CHR ''/'' # f @ r
           \<and> CHR ''/'' \<notin> set a \<and> CHR ''/'' \<notin> set f \<and> (r = [] \<or> hd r = CHR ''/'')
           \<and> snd (getContentType ?h) = Some f"
    using getContentType_ordered_tests [of ?h] prem by (elim conjE) (erule (1) mp)
  then obtain a f r where afr: "content_type_header ?h = a @ CHR ''/'' # f @ r"
     "CHR ''/'' \<notin> set a" "r = [] \<or> hd r = CHR ''/''" "snd (getContentType ?h) = Some f"
    by blast
  have "f = ''png''" using afr(4) by (simp add: img)
  then show ?thesis using img js afr by blast
qed

text \<open>
  The header value \<^verbatim>\<open>image/svg+xml; charset=utf-8\<close> has the subtype \<^verbatim>\<open>svg+xml\<close>, and the
  format reported for it carries the parameter as well.
\<close>

theorem getContentType_format_counterexample:
  "media_subtype ''image/svg+xml; charset=utf-8'' = ''svg+xml''
   \<and> getContentType [(''content-type'', ''image/svg+xml; charset=utf-8'')]
       = (KImage, Some ''svg+xml; charset=utf-8'')
   \<and> snd (getContentType [(''content-type'', ''image/svg+xml; charset=utf-8'')])
       \<noteq> Some (media_subtype ''image/svg+xml; charset=utf-8'')"
  by (simp add: media_subtype_def getContentType_def content_type_header_def format_of_def)

subsection \<open>Evaluation of the examples\<close>

lemmas eval_defs =
  makeApiCall_chain_def makeApiCall_open_def build_request_def sample_fetch_def json_ok_def
  post_step_def get_step_def ok_def from_entries_def read_body_def declared_type_def
  getContentType_def content_type_header_def format_of_def extractMainContent_def
  openai_content_def opt_prop_def chat_body_def item_body_def assign_eval

subsection \<open>Content extractor\<close>

lemma openai_content_shape:
  "map_of kvs ''choices'' = Some (JArr (JObj m # rest)) \<Longrightarrow> map_of m ''message'' = Some (JObj g)
    \<Longrightarrow> map_of g ''content'' = Some c \<Longrightarrow> openai_content (JObj kvs) = c"
  by (simp add: openai_content_def opt_prop_def parse_index_def decimal_value_def is_digit_def)

lemma parse_index_literals:
  "parse_index ''content'' = None" "parse_index ''data'' = None" "parse_index ''choices'' = None"
  "parse_index ''message'' = None" "parse_index ''0'' = Some 0" "parse_index ''length'' = None"
  by (simp_all add: parse_index_def decimal_value_def is_digit_def)

lemma opt_prop_array_literals:
  "opt_prop (JArr xs) ''content'' = JUndefined" "opt_prop (JArr xs) ''data'' = JUndefined"
  "opt_prop (JArr xs) ''choices'' = JUndefined"
  by (simp_all add: opt_prop_def parse_index_literals)

lemma opt_prop_undefined [simp]: "opt_prop JUndefined k = JUndefined"
  by (simp add: opt_prop_def)

text \<open>
  C7, as the code has it: for the json kind \<open>extractMainContent\<close> never throws and tries its
  heuristics in order, each guarded by the truthiness of the value it would return. It
  returns \<^verbatim>\<open>data.choices[0].message.content\<close> when that value is truthy (of whatever
  type); otherwise the top-level \<^verbatim>\<open>content\<close> when truthy; otherwise the top-level
  \<^verbatim>\<open>data\<close> when truthy; otherwise the body unchanged, an array body in particular. A
  field that is present but falsy is passed over. For a body of the chat-completion shape
  the nested value is the message content, and for an object body the two top-level
  fields are its own entries.
\<close>

theorem extractMainContent_json_truthy_order:
  "extractMainContent d KJson =
     Inr (if truthy (openai_content d) then openai_content d
          else if truthy (opt_prop d ''content'') then opt_prop d ''content''
          else if truthy (opt_prop d ''data'') then opt_prop d ''data''
          else d)
   \<and> (\<forall>kvs m rest g c. d = JObj kvs \<and> map_of kvs ''choices'' = Some (JArr (JObj m # rest))
         \<and> map_of m ''message'' = Some (JObj g) \<and> map_of g ''content'' = Some c
        \<longrightarrow> openai_content d = c)
   \<and> (\<forall>kvs. d = JObj kvs \<longrightarrow>
         opt_prop d ''content'' = (case map_of kvs ''content'' of Some c \<Rightarrow> c | None \<Rightarrow> JUndefined)
         \<and> opt_prop d ''data'' = (case map_of kvs ''data'' of Some c \<Rightarrow> c | None \<Rightarrow> JUndefined))
   \<and> (\<forall>xs. d = JArr xs \<longrightarrow> extractMainContent d KJson = Inr d)"
proof -
  have a: "extractMainContent d KJson =
     Inr (if truthy (openai_content d) then openai_content d
          else if truthy (opt_prop d ''content'') then opt_prop d ''content''
          else if truthy (opt_prop d ''data'') then opt_prop d ''data''
          else d)"
    by (simp add: extractMainContent_def)
  have b: "\<forall>kvs m rest g c. d = JObj kvs \<and> map_of kvs ''choices'' = Some (JArr (JObj m # rest))
         \<and> map_of m ''message'' = Some (JObj g) \<and> map_of g ''content'' = Some c
        \<longrightarrow> openai_content d = c"
    using openai_content_shape by blast
  have c: "\<forall>kvs. d = JObj kvs \<longrightarrow>
         opt_prop d ''content'' = (case map_of kvs ''content'' of Some c \<Rightarrow> c | None \<Rightarrow> JUndefined)
         \<and> opt_prop d ''data'' = (case map_of kvs ''data'' of Some c \<Rightarrow> c | None \<Rightarrow> JUndefined)"
    by (simp add: opt_prop_def)
  have e: "\<forall>xs. d = JArr xs \<longrightarrow> extractMainContent d KJson = Inr d"
    by (simp add: extractMainContent_def openai_content_def opt_prop_array_literals)
  show ?thesis using a b c e by blast
qed

text \<open>
  The two bodies of the claim: the chat-completion body yields \<^verbatim>\<open>hi\<close>, and
  \<^verbatim>\<open>{foo: 1}\<close> comes back unchanged.
\<close>

theorem extractMainContent_json_truthy_order_witness:
  "extractMainContent chat_body KJson = Inr (JStr ''hi'')
   \<and> extractMainContent (JObj [(''foo'', JNum 1)]) KJson = Inr (JObj [(''foo'', JNum 1)])"
proof -
  have sh: "chat_body = JObj [(''choices'', JArr [JObj [(''message'', JObj [(''content'', JStr ''hi'')])]])]
      \<and> map_of [(''choices'', JArr [JObj [(''message'', JObj [(''content'', JStr ''hi'')])]])] ''choices''
           = Some (JArr (JObj [(''message'', JObj [(''content'', JStr ''hi'')])] # []))
      \<and> map_of [(''message'', JObj [(''content'', JStr ''hi'')])] ''message'' = Some (JObj [(''content'', JStr ''hi'')])
      \<and> map_of [(''content'', JStr ''hi'')] ''content'' = Some (JStr ''hi'')"
    by (simp add: chat_body_def)
  have oc: "openai_content chat_body = JStr ''hi''"
    using extractMainContent_json_truthy_order [of chat_body] sh by blast
  have "extractMainContent chat_body KJson = Inr (JStr ''hi'')"
    using extractMainContent_json_truthy_order [of chat_body] oc by simp
  moreover have "extractMainContent (JObj [(''foo'', JNum 1)]) KJson = Inr (JObj [(''foo'', JNum 1)])"
    using extractMainContent_json_truthy_order [of "JObj [(''foo'', JNum 1)]"]
    by (simp add: openai_content_def opt_prop_def)
  ultimately show ?thesis by blast
qed

text \<open>
  The body \<^verbatim>\<open>{content: "", data: "d"}\<close> has a top-level \<^verbatim>\<open>content\<close> field, and the
  extractor returns its \<^verbatim>\<open>data\<close> field.
\<close>

theorem extractMainContent_falsy_content_counterexample:
  "map_of [(''content'', JStr ''''), (''data'', JStr ''d'')] ''content'' = Some (JStr '''')
   \<and> extractMainContent (JObj [(''content'', JStr ''''), (''data'', JStr ''d'')]) KJson = Inr (JStr ''d'')
   \<and> extractMainContent (JObj [(''content'', JStr ''''), (''data'', JStr ''d'')]) KJson \<noteq> Inr (JStr '''')"
  by (simp add: extractMainContent_def openai_content_def opt_prop_def)

subsection \<open>Transform registry\<close>

text \<open>
  C8: a transform name that is not one of the three registered ones should leave the
  value unchanged. The lookup \<^verbatim>\<open>transformFunctions[name]\<close> also finds what the registry
  object inherits from \<^verbatim>\<open>Object.prototype\<close>: with the name \<^verbatim>\<open>toString\<close> the value
  becomes the string \<^verbatim>\<open>[object Object]\<close> on both routes, and with \<^verbatim>\<open>__proto__\<close> the call
  throws.
\<close>

theorem transform_stage_inherited_name:
  "transform_stage ChainFetch (Some ''toString'') (JNum 7) = Inr (JStr ''[object Object]'')
   \<and> transform_stage OpenFetch (Some ''toString'') (JNum 7) = Inr (JStr ''[object Object]'')
   \<and> transform_stage ChainFetch (Some ''__proto__'') (JNum 7) = Inl TypeError
   \<and> transform_stage OpenFetch (Some ''__proto__'') (JNum 7) = Inl TypeError"
  by (simp add: transform_stage_def transformFunctions_def object_prototype_keys_def call_inherited_def)

text \<open>Every other unregistered name leaves the value as it is.\<close>

lemma transform_stage_not_registered:
  assumes "name \<noteq> ''identity''" "name \<noteq> ''extractOpenAIText''" "name \<noteq> ''textToSpeechPayload''"
    and "name \<notin> set object_prototype_keys"
  shows "transform_stage r (Some name) d = Inr d"
  using assms by (simp add: transform_stage_def transformFunctions_def)

subsection \<open>Simplified content on the chained route\<close>

lemma makeApiCall_chain_simplified:
  "makeApiCall_chain fetch w config = (Inr r, w') \<Longrightarrow> simplifiedContent r = data r"
  by (auto simp: makeApiCall_chain_def Let_def split: prod.splits fetch_result.splits sum.splits if_splits)

text \<open>
  C3: the \<^verbatim>\<open>simplifiedContent\<close> of a step of the chained route should be the content
  extractor applied to the decoded body. For the chat-completion body answered by
  \<^verbatim>\<open>https://llm.test/chat\<close>, classified as json, the chained \<^verbatim>\<open>makeApiCall\<close> stores the
  whole body there, where the extractor, and \<^verbatim>\<open>makeApiCall\<close> of the other route, give
  \<^verbatim>\<open>hi\<close>.
\<close>

theorem makeApiCall_chain_simplifiedContent_is_raw:
  "map_sum id simplifiedContent (fst (makeApiCall_chain sample_fetch 0 (post_step ''https://llm.test/chat'')))
     = Inr chat_body
   \<and> map_sum id contentType (fst (makeApiCall_chain sample_fetch 0 (post_step ''https://llm.test/chat'')))
     = Inr KJson
   \<and> extractMainContent chat_body KJson = Inr (JStr ''hi'')
   \<and> map_sum id simplifiedContent (fst (makeApiCall_open sample_fetch 0 (post_step ''https://llm.test/chat'')))
     = Inr (JStr ''hi'')"
  by (simp add: eval_defs parse_index_def decimal_value_def is_digit_def)

subsection \<open>Path utilities\<close>

text \<open>
  Reading back what was written: an entry of a mapping, an element of an array. What the
  reducer of \<open>injectAtPath\<close> can enter is a mapping or an array, and where it creates a
  node, it does so in a mapping, or at an index of an array.
\<close>

lemma read_object_entry: "opt_get_prop (JObj (assign k c kvs)) k = Inr c"
  by (simp add: opt_get_prop_def map_of_assign)

lemma read_array_element:
  assumes "parse_index k = Some i" "i < length xs"
  shows "opt_get_prop (JArr xs) k = Inr (xs ! i)"
proof -
  have "k \<noteq> ''length''" using assms(1) parse_index_not_length by auto
  then show ?thesis using assms by (simp add: opt_get_prop_def)
qed

lemma set_prop_array:
  assumes "parse_index k = Some i"
  shows "\<exists>ys. set_prop (JArr xs) k x = Inr (JArr ys) \<and> i < length ys \<and> ys ! i = x"
proof (cases "i < length xs")
  case True
  then show ?thesis using assms by simp
next
  case False
  then have "(xs @ replicate (i - length xs) JUndefined @ [x]) ! i = x"
    by (simp add: nth_append)
  then show ?thesis using assms False by simp
qed

lemma injectable_container:
  "injectable a ks l \<Longrightarrow> (\<exists>kvs. a = JObj kvs) \<or> (\<exists>xs. a = JArr xs)"
  by (cases a) auto

lemma get_prop_container:
  assumes "get_prop a k = Inr c" "(\<exists>kvs. c = JObj kvs) \<or> (\<exists>xs. c = JArr xs)"
  shows "(\<exists>kvs. a = JObj kvs \<and> map_of kvs k = Some c)
       \<or> (\<exists>xs i. a = JArr xs \<and> parse_index k = Some i \<and> i < length xs \<and> xs ! i = c)"
  using assms
  by (cases a) (auto simp: inherited_or_absent_def split: option.splits if_splits)

lemma get_then_create:
  assumes "get_prop a k = Inr c" "\<not> truthy c" "set_prop a k (JObj []) = Inr a0"
  shows "(\<exists>kvs. a = JObj kvs \<and> a0 = JObj (assign k (JObj []) kvs)
            \<and> (case map_of kvs k of Some d \<Rightarrow> \<not> truthy d | None \<Rightarrow> k \<notin> set object_prototype_keys))
       \<or> (\<exists>xs i ys. a = JArr xs \<and> parse_index k = Some i \<and> \<not> (i < length xs \<and> truthy (xs ! i))
            \<and> a0 = JArr ys \<and> i < length ys)"
proof (cases a)
  case (JObj kvs)
  show ?thesis
  proof (cases "map_of kvs k")
    case None
    then have k: "k \<notin> set object_prototype_keys"
      using assms(1) JObj by (auto simp: inherited_or_absent_def split: if_splits)
    then have "k \<noteq> ''__proto__''" using proto_key_proto by auto
    then show ?thesis using assms(3) JObj None k by simp
  next
    case (Some d)
    then show ?thesis using assms JObj by auto
  qed
next
  case (JArr xs)
  show ?thesis
  proof (cases "parse_index k")
    case None
    then show ?thesis using assms(3) JArr by (auto simp: proto_write_def split: if_splits)
  next
    case (Some i)
    then have kl: "k \<noteq> ''length''" using parse_index_not_length by auto
    obtain ys where ys: "set_prop (JArr xs) k (JObj []) = Inr (JArr ys)" "i < length ys"
      using set_prop_array[OF Some] by blast
    have "\<not> (i < length xs \<and> truthy (xs ! i))"
      using assms(1,2) JArr Some kl by auto
    then show ?thesis using assms(3) JArr Some ys by auto
  qed
next
  case JUndefined
  then show ?thesis using assms by simp
next
  case JNull
  then show ?thesis using assms by simp
next
  case (JBool b)
  then show ?thesis using assms proto_key_proto
    by (auto simp: inherited_or_absent_def split: if_splits)
next
  case (JNum n)
  then show ?thesis using assms proto_key_proto
    by (auto simp: inherited_or_absent_def split: if_splits)
next
  case JNaN
  then show ?thesis using assms proto_key_proto
    by (auto simp: inherited_or_absent_def split: if_splits)
next
  case (JStr s)
  then show ?thesis using assms proto_key_proto parse_index_not_proto
    by (auto simp: inherited_or_absent_def split: if_splits)
next
  case (JBlob n)
  then show ?thesis using assms proto_key_proto
    by (auto simp: inherited_or_absent_def proto_write_def split: if_splits)
next
  case (JArrayBuffer n)
  then show ?thesis using assms proto_key_proto
    by (auto simp: inherited_or_absent_def proto_write_def split: if_splits)
qed

lemma inject_parts_injectable:
  "injectable a ks l \<Longrightarrow>
     \<exists>a'. inject_parts a ks l v = Inr a' \<and> extractByPath a' (ks @ [l]) = Inr v"
proof (induction ks arbitrary: a)
  case Nil
  from Nil obtain kvs xs where "a = JObj kvs \<or> a = JArr xs" using injectable_container by blast
  then show ?case
  proof
    assume a: "a = JObj kvs"
    then have "\<not> (l = ''__proto__'' \<and> map_of kvs l = None)" using Nil by (auto split: if_splits)
    then have "set_prop a l v = Inr (JObj (assign l v kvs))" using a by auto
    then show ?thesis by (simp add: read_object_entry)
  next
    assume a: "a = JArr xs"
    then obtain i where i: "parse_index l = Some i" using Nil by auto
    obtain ys where ys: "set_prop (JArr xs) l v = Inr (JArr ys)" "i < length ys" "ys ! i = v"
      using set_prop_array[OF i] by blast
    show ?thesis using a ys read_array_element[OF i ys(2)] by simp
  qed
next
  case (Cons k ks)
  have fresh: "\<exists>a'. inject_parts a (k # ks) l v = Inr a' \<and> extractByPath a' ((k # ks) @ [l]) = Inr v"
    if g: "get_prop a k = Inr c" "\<not> truthy c" and f: "injectable (JObj []) ks l"
      and s: "set_prop a k (JObj []) = Inr a0" "opt_get_prop (replace_child a0 k c') k = Inr c'"
        "inject_parts (JObj []) ks l v = Inr c'" "extractByPath c' (ks @ [l]) = Inr v"
    for c a0 c'
    using g s by simp
  from Cons.prems obtain kvs xs where "a = JObj kvs \<or> a = JArr xs" using injectable_container by blast
  then show ?case
  proof
    assume a: "a = JObj kvs"
    show ?thesis
    proof (cases "map_of kvs k")
      case None
      then have k: "k \<notin> set object_prototype_keys" and f: "injectable (JObj []) ks l"
        using Cons.prems a by auto
      obtain c' where c': "inject_parts (JObj []) ks l v = Inr c'" "extractByPath c' (ks @ [l]) = Inr v"
        using Cons.IH[OF f] by blast
      have g: "get_prop a k = Inr JUndefined" using a None k by (simp add: inherited_or_absent_def)
      have "k \<noteq> ''__proto__''" using k proto_key_proto by auto
      then have s: "set_prop a k (JObj []) = Inr (JObj (assign k (JObj []) kvs))" using a by simp
      show ?thesis
        using fresh[OF g _ f s _ c'] by (simp add: read_object_entry)
    next
      case (Some c)
      then have g: "get_prop a k = Inr c" using a by simp
      show ?thesis
      proof (cases "truthy c")
        case True
        then have "injectable c ks l" using Cons.prems a Some by simp
        then obtain c' where c': "inject_parts c ks l v = Inr c'" "extractByPath c' (ks @ [l]) = Inr v"
          using Cons.IH by blast
        show ?thesis using g True c' a by (simp add: read_object_entry)
      next
        case False
        then have f: "injectable (JObj []) ks l" using Cons.prems a Some by simp
        obtain c' where c': "inject_parts (JObj []) ks l v = Inr c'" "extractByPath c' (ks @ [l]) = Inr v"
          using Cons.IH[OF f] by blast
        have s: "set_prop a k (JObj []) = Inr (JObj (assign k (JObj []) kvs))" using a Some by simp
        show ?thesis
          using fresh[OF g False f s _ c'] by (simp add: read_object_entry)
      qed
    qed
  next
    assume a: "a = JArr xs"
    then obtain i where i: "parse_index k = Some i" using Cons.prems by (auto split: option.splits)
    then have kl: "k \<noteq> ''length''" using parse_index_not_length by auto
    have g: "get_prop a k = Inr (if i < length xs then xs ! i else JUndefined)"
      using a i kl by simp
    show ?thesis
    proof (cases "i < length xs \<and> truthy (xs ! i)")
      case True
      then have "injectable (xs ! i) ks l" using Cons.prems a i by simp
      then obtain c' where c': "inject_parts (xs ! i) ks l v = Inr c'" "extractByPath c' (ks @ [l]) = Inr v"
        using Cons.IH by blast
      have "opt_get_prop (JArr (xs[i := c'])) k = Inr c'"
        using read_array_element[OF i, of "xs[i := c']"] True by simp
      then show ?thesis using g True c' a i by simp
    next
      case False
      then have f: "injectable (JObj []) ks l" using Cons.prems a i by auto
      obtain c' where c': "inject_parts (JObj []) ks l v = Inr c'" "extractByPath c' (ks @ [l]) = Inr v"
        using Cons.IH[OF f] by blast
      obtain ys where ys: "set_prop (JArr xs) k (JObj []) = Inr (JArr ys)" "i < length ys"
        using set_prop_array[OF i] by blast
      have r: "opt_get_prop (replace_child (JArr ys) k c') k = Inr c'"
        using read_array_element[OF i, of "ys[i := c']"] ys(2) i by simp
      have nt: "\<not> truthy (if i < length xs then xs ! i else JUndefined)" using False by auto
      show ?thesis
        using fresh[OF g nt f _ r c'] ys(1) a by simp
    qed
  qed
qed

lemma inject_parts_returns:
  "inject_parts a ks l v = Inr a' \<Longrightarrow> l \<noteq> ''__proto__'' \<Longrightarrow> injectable a ks l"
proof (induction ks arbitrary: a a')
  case Nil
  then show ?case
    by (cases a) (auto simp: proto_write_def split: if_splits option.splits)
next
  case (Cons k ks)
  from Cons.prems(1) obtain c where g: "get_prop a k = Inr c"
    by (auto split: sum.splits)
  show ?case
  proof (cases "truthy c")
    case True
    then obtain c' where "inject_parts c ks l v = Inr c'"
      using Cons.prems(1) g by (auto split: sum.splits)
    then have i: "injectable c ks l" using Cons.IH Cons.prems(2) by blast
    then have "(\<exists>kvs. c = JObj kvs) \<or> (\<exists>xs. c = JArr xs)" by (rule injectable_container)
    then show ?thesis using get_prop_container[OF g] i True by auto
  next
    case False
    then obtain a0 c' where s: "set_prop a k (JObj []) = Inr a0" "inject_parts (JObj []) ks l v = Inr c'"
      using Cons.prems(1) g by (auto split: sum.splits)
    have i: "injectable (JObj []) ks l" using Cons.IH[OF s(2) Cons.prems(2)] .
    show ?thesis using get_then_create[OF g False s(1)] i
      by (auto split: option.splits)
  qed
qed

text \<open>
  Fresh mappings below a missing or falsy key, the walk through truthy values above it,
  and the failure on a primitive.
\<close>

lemma inject_parts_fresh:
  "injectable (JObj []) ks l \<Longrightarrow> inject_parts (JObj []) ks l v = Inr (nest ks l v)"
proof (induction ks)
  case Nil
  then have "l \<noteq> ''__proto__''" by (auto split: if_splits)
  then show ?case by (simp add: assign_Nil)
next
  case (Cons k ks)
  then have k: "k \<notin> set object_prototype_keys" and ih: "inject_parts (JObj []) ks l v = Inr (nest ks l v)"
    by auto
  have "k \<noteq> ''__proto__''" using k proto_key_proto by auto
  then show ?case using k ih
    by (simp add: inherited_or_absent_def assign_Nil assign_def)
qed

lemma inject_parts_create:
  assumes "injectable (JObj kvs) (k # ks) l" "\<not> truthy (own_prop (JObj kvs) k)"
  shows "inject_parts (JObj kvs) (k # ks) l v = Inr (JObj (assign k (nest ks l v) kvs))"
proof -
  have f: "injectable (JObj []) ks l"
    using assms by (auto split: option.splits if_splits)
  have n: "inject_parts (JObj []) ks l v = Inr (nest ks l v)"
    using f by (rule inject_parts_fresh)
  show ?thesis
  proof (cases "map_of kvs k")
    case None
    then have k: "k \<notin> set object_prototype_keys" using assms(1) by simp
    then have "k \<noteq> ''__proto__''" using proto_key_proto by auto
    then show ?thesis using None k n by (simp add: inherited_or_absent_def assign_assign)
  next
    case (Some c)
    then have "\<not> truthy c" using assms(2) by simp
    then show ?thesis using Some n by (simp add: assign_assign)
  qed
qed

lemma walk_container:
  "walk a ks = Some (JObj kvs) \<Longrightarrow> (\<exists>kvs'. a = JObj kvs') \<or> (\<exists>xs. a = JArr xs)"
proof (induction ks arbitrary: a)
  case Nil
  then show ?case by simp
next
  case (Cons k ks)
  then obtain c where c: "get_prop a k = Inr c" "walk c ks = Some (JObj kvs)"
    by (auto split: sum.splits if_splits)
  then have "(\<exists>kvs'. c = JObj kvs') \<or> (\<exists>xs. c = JArr xs)" using Cons.IH by blast
  then show ?case using get_prop_container[OF c(1)] by blast
qed

lemma walk_injectable:
  "walk a pre = Some node \<Longrightarrow> injectable a (pre @ rest) l \<Longrightarrow> injectable node rest l"
proof (induction pre arbitrary: a)
  case Nil
  then show ?case by simp
next
  case (Cons k pre)
  then obtain c where c: "get_prop a k = Inr c" "truthy c" "walk c pre = Some node"
    by (auto split: sum.splits if_splits)
  from Cons.prems(2) obtain kvs xs where "a = JObj kvs \<or> a = JArr xs"
    using injectable_container by blast
  then have "injectable c (pre @ rest) l"
  proof
    assume a: "a = JObj kvs"
    then have "map_of kvs k = Some c"
      using c(1,2) by (auto simp: inherited_or_absent_def split: option.splits if_splits)
    then show ?thesis using Cons.prems(2) a c(2) by simp
  next
    assume a: "a = JArr xs"
    then obtain i where i: "parse_index k = Some i" using Cons.prems(2) by (auto split: option.splits)
    then have "k \<noteq> ''length''" using parse_index_not_length by auto
    then have "i < length xs \<and> xs ! i = c" using c(1,2) a i by (auto split: if_splits)
    then show ?thesis using Cons.prems(2) a i c(2) by auto
  qed
  then show ?case using Cons.IH c(3) by blast
qed

lemma inject_parts_below:
  "walk a pre = Some (JObj kvs) \<Longrightarrow> inject_parts (JObj kvs) rest l v = Inr node'
    \<Longrightarrow> \<exists>a'. inject_parts a (pre @ rest) l v = Inr a' \<and> extractByPath a' pre = Inr node'"
proof (induction pre arbitrary: a)
  case Nil
  then show ?case by simp
next
  case (Cons k pre)
  then obtain c where c: "get_prop a k = Inr c" "truthy c" "walk c pre = Some (JObj kvs)"
    by (auto split: sum.splits if_splits)
  obtain c' where c': "inject_parts c (pre @ rest) l v = Inr c'" "extractByPath c' pre = Inr node'"
    using Cons.IH[OF c(3) Cons.prems(2)] by blast
  have "(\<exists>kvs'. c = JObj kvs') \<or> (\<exists>xs. c = JArr xs)" using c(3) by (rule walk_container)
  then have "opt_get_prop (replace_child a k c') k = Inr c'"
    using get_prop_container[OF c(1)] read_array_element
    by (auto simp: read_object_entry)
  then show ?case using c c' by simp
qed

lemma inject_parts_primitive:
  "walk a ks = Some t \<Longrightarrow> \<not> is_object t \<Longrightarrow> l \<noteq> ''__proto__''
    \<Longrightarrow> inject_parts a ks l v = Inl TypeError"
proof (induction ks arbitrary: a)
  case Nil
  then show ?case by (cases a) auto
next
  case (Cons k ks)
  then obtain c where c: "get_prop a k = Inr c" "truthy c" "walk c ks = Some t"
    by (auto split: sum.splits if_splits)
  then have "inject_parts c ks l v = Inl TypeError" using Cons.IH Cons.prems(2,3) by blast
  then show ?case using c by simp
qed

text \<open>
  C4: for every mapping, path and value the round trip
  \<^verbatim>\<open>extractByPath(injectAtPath(clone(m), p, v), p.split('.'))\<close> should give \<open>v\<close>, with
  empty mappings created at missing keys. As the code has it: the round trip gives \<open>v\<close>
  for every path that is injectable into \<open>m\<close>, which may lead through mappings and
  through arrays. Unless the last key is \<^verbatim>\<open>__proto__\<close>, the injectable paths are all the
  paths for which \<open>injectAtPath\<close> returns a value of the model. Wherever on an injectable
  path a key of a mapping is missing or holds a falsy value, at whatever depth, the
  mapping found there (reached through truthy values only) becomes that mapping with a
  chain of fresh mappings stored at the key, the injected value at its end. And when
  the intermediate keys lead through truthy values to a value that is no object (a
  number, a string, a boolean), the final assignment throws a \<^verbatim>\<open>TypeError\<close>, unless the
  last key is \<^verbatim>\<open>__proto__\<close>.
\<close>

theorem injectAtPath_round_trip:
  "(last (split_on CHR ''.'' p) \<noteq> ''__proto__'' \<longrightarrow>
      ((\<exists>m'. injectAtPath m p v = Inr m')
        \<longleftrightarrow> injectable m (butlast (split_on CHR ''.'' p)) (last (split_on CHR ''.'' p))))
   \<and> (injectable m (butlast (split_on CHR ''.'' p)) (last (split_on CHR ''.'' p))
       \<longrightarrow> path_round_trip m p v = Inr v)
   \<and> (\<forall>pre k ks kvs.
        injectable m (butlast (split_on CHR ''.'' p)) (last (split_on CHR ''.'' p))
        \<and> butlast (split_on CHR ''.'' p) = pre @ k # ks
        \<and> walk m pre = Some (JObj kvs) \<and> \<not> truthy (own_prop (JObj kvs) k)
       \<longrightarrow> (\<exists>m'. injectAtPath m p v = Inr m'
              \<and> extractByPath m' pre
                  = Inr (JObj (assign k (nest ks (last (split_on CHR ''.'' p)) v) kvs))))
   \<and> (\<forall>t. walk m (butlast (split_on CHR ''.'' p)) = Some t \<and> \<not> is_object t
            \<and> last (split_on CHR ''.'' p) \<noteq> ''__proto__''
       \<longrightarrow> injectAtPath m p v = Inl TypeError)"
proof -
  let ?parts = "split_on CHR ''.'' p"
  let ?ks = "butlast ?parts"
  let ?l = "last ?parts"
  have parts: "?ks @ [?l] = ?parts" using split_on_nonempty by simp
  have inj: "injectAtPath m p v = inject_parts m ?ks ?l v"
    by (simp add: injectAtPath_def Let_def)
  have b: "path_round_trip m p v = Inr v" if h: "injectable m ?ks ?l"
  proof -
    obtain m' where "inject_parts m ?ks ?l v = Inr m'" "extractByPath m' (?ks @ [?l]) = Inr v"
      using inject_parts_injectable[OF h] by blast
    then show ?thesis by (simp add: path_round_trip_def inj parts)
  qed
  have a: "(\<exists>m'. injectAtPath m p v = Inr m') \<longleftrightarrow> injectable m ?ks ?l" if "?l \<noteq> ''__proto__''"
  proof
    assume "\<exists>m'. injectAtPath m p v = Inr m'"
    then show "injectable m ?ks ?l" using inject_parts_returns that by (auto simp: inj)
  next
    assume "injectable m ?ks ?l"
    then show "\<exists>m'. injectAtPath m p v = Inr m'"
      using inject_parts_injectable[of m ?ks ?l v] by (auto simp: inj)
  qed
  have c: "\<exists>m'. injectAtPath m p v = Inr m'
              \<and> extractByPath m' pre = Inr (JObj (assign k (nest ks ?l v) kvs))"
    if h: "injectable m ?ks ?l" "?ks = pre @ k # ks" "walk m pre = Some (JObj kvs)"
      "\<not> truthy (own_prop (JObj kvs) k)" for pre k ks kvs
  proof -
    have "injectable (JObj kvs) (k # ks) ?l"
      using walk_injectable[OF h(3), of "k # ks" ?l] h(1,2) by simp
    then have "inject_parts (JObj kvs) (k # ks) ?l v = Inr (JObj (assign k (nest ks ?l v) kvs))"
      using h(4) by (rule inject_parts_create)
    then show ?thesis
      using inject_parts_below[OF h(3), of "k # ks" ?l v] h(2) by (simp add: inj)
  qed
  have d: "injectAtPath m p v = Inl TypeError"
    if "walk m ?ks = Some t" "\<not> is_object t" "?l \<noteq> ''__proto__''" for t
    using inject_parts_primitive[OF that] by (simp add: inj)
  show ?thesis using a b c d by blast
qed

text \<open>
  Injecting 2 at \<^verbatim>\<open>a.b\<close> into \<^verbatim>\<open>{x: 1}\<close> gives \<^verbatim>\<open>{x: 1, a: {b: 2}}\<close>, and 2 is read back.
  The round trip also holds through the array of \<^verbatim>\<open>{a: [1]}\<close> at \<^verbatim>\<open>a.0\<close>, and for the
  inherited name \<^verbatim>\<open>toString\<close> as last key. In \<^verbatim>\<open>{a: 5}\<close> the walk along \<^verbatim>\<open>a.b\<close> ends on
  the number 5, and the injection throws.
\<close>

theorem injectAtPath_round_trip_witness:
  "injectable (JObj [(''x'', JNum 1)]) (butlast (split_on CHR ''.'' ''a.b'')) (last (split_on CHR ''.'' ''a.b''))
   \<and> path_round_trip (JObj [(''x'', JNum 1)]) ''a.b'' (JNum 2) = Inr (JNum 2)
   \<and> injectAtPath (JObj [(''x'', JNum 1)]) ''a.b'' (JNum 2)
       = Inr (JObj [(''x'', JNum 1), (''a'', JObj [(''b'', JNum 2)])])
   \<and> path_round_trip (JObj [(''a'', JArr [JNum 1])]) ''a.0'' (JNum 2) = Inr (JNum 2)
   \<and> path_round_trip (JObj []) ''toString'' (JNum 1) = Inr (JNum 1)
   \<and> walk (JObj [(''a'', JNum 5)]) (butlast (split_on CHR ''.'' ''a.b'')) = Some (JNum 5)
   \<and> injectAtPath (JObj [(''a'', JNum 5)]) ''a.b'' (JNum 1) = Inl TypeError"
proof -
  have sp: "split_on CHR ''.'' ''a.b'' = [''a'', ''b'']" "split_on CHR ''.'' ''a.0'' = [''a'', ''0'']"
    "split_on CHR ''.'' ''toString'' = [''toString'']"
    by simp_all
  have h1: "injectable (JObj [(''x'', JNum 1)]) (butlast (split_on CHR ''.'' ''a.b'')) (last (split_on CHR ''.'' ''a.b''))"
    by (simp add: sp object_prototype_keys_def)
  have h3: "butlast (split_on CHR ''.'' ''a.b'') = [] @ ''a'' # []
      \<and> walk (JObj [(''x'', JNum 1)]) [] = Some (JObj [(''x'', JNum 1)])
      \<and> \<not> truthy (own_prop (JObj [(''x'', JNum 1)]) ''a'')"
    by (simp add: sp)
  note t = injectAtPath_round_trip [of "''a.b''" "JObj [(''x'', JNum 1)]" "JNum 2"]
  have r: "path_round_trip (JObj [(''x'', JNum 1)]) ''a.b'' (JNum 2) = Inr (JNum 2)"
    using t h1 by blast
  have "\<exists>m'. injectAtPath (JObj [(''x'', JNum 1)]) ''a.b'' (JNum 2) = Inr m'
      \<and> extractByPath m' [] = Inr (JObj (assign ''a'' (nest [] (last (split_on CHR ''.'' ''a.b'')) (JNum 2)) [(''x'', JNum 1)]))"
    using t h1 h3 by blast
  then have i: "injectAtPath (JObj [(''x'', JNum 1)]) ''a.b'' (JNum 2)
       = Inr (JObj [(''x'', JNum 1), (''a'', JObj [(''b'', JNum 2)])])"
    by (auto simp: sp assign_def parse_index_def decimal_value_def is_digit_def)
  have h4: "injectable (JObj [(''a'', JArr [JNum 1])]) (butlast (split_on CHR ''.'' ''a.0'')) (last (split_on CHR ''.'' ''a.0''))"
    by (simp add: sp parse_index_def decimal_value_def is_digit_def)
  have arr: "path_round_trip (JObj [(''a'', JArr [JNum 1])]) ''a.0'' (JNum 2) = Inr (JNum 2)"
    using injectAtPath_round_trip [of "''a.0''" "JObj [(''a'', JArr [JNum 1])]" "JNum 2"] h4 by blast
  have h5: "injectable (JObj []) (butlast (split_on CHR ''.'' ''toString'')) (last (split_on CHR ''.'' ''toString''))"
    by (simp add: sp)
  have inh: "path_round_trip (JObj []) ''toString'' (JNum 1) = Inr (JNum 1)"
    using injectAtPath_round_trip [of "''toString''" "JObj []" "JNum 1"] h5 by blast
  have w: "walk (JObj [(''a'', JNum 5)]) (butlast (split_on CHR ''.'' ''a.b'')) = Some (JNum 5)"
    by (simp add: sp)
  have h6: "\<not> is_object (JNum 5) \<and> last (split_on CHR ''.'' ''a.b'') \<noteq> ''__proto__''"
    by (simp add: sp)
  have prim: "injectAtPath (JObj [(''a'', JNum 5)]) ''a.b'' (JNum 1) = Inl TypeError"
    using injectAtPath_round_trip [of "''a.b''" "JObj [(''a'', JNum 5)]" "JNum 1"] w h6 by blast
  show ?thesis using h1 r i arr inh w prim by blast
qed

text \<open>
  In the mapping \<^verbatim>\<open>{a: 5}\<close> the path \<^verbatim>\<open>a.b\<close> passes through the number 5: the final
  assignment \<^verbatim>\<open>target[lastPart] = value\<close> writes a property of a primitive and throws, so
  nothing is read back.
\<close>

theorem injectAtPath_primitive_counterexample:
  "path_round_trip (JObj [(''a'', JNum 5)]) ''a.b'' (JNum 1) = Inl TypeError
   \<and> path_round_trip (JObj [(''a'', JNum 5)]) ''a.b'' (JNum 1) \<noteq> Inr (JNum 1)"
  by (simp add: path_round_trip_def injectAtPath_def)

subsection \<open>The loop of the chained route\<close>

text \<open>
  Chain-link processing changes nothing of a step but its body. The loop either fails
  while preparing a step, or fails in a call, which is then the last, or goes on with the
  raw body of the response as \<^verbatim>\<open>currentData\<close>.
\<close>

lemma inject_stage_body_only: "inject_stage p step d = Inr step' \<Longrightarrow> \<exists>b. step' = step\<lparr>body := b\<rparr>"
  by (auto simp: inject_stage_def split: option.splits if_splits sum.splits)

lemma link_step_body_only: "link_step t cd step = Inr step' \<Longrightarrow> \<exists>b. step' = step\<lparr>body := b\<rparr>"
  by (auto simp: link_step_def split: sum.splits dest: inject_stage_body_only)

lemma prepare_step_body_only:
  assumes "prepare_step ts i cd step = Inr step'"
  shows "\<exists>b. step' = step\<lparr>body := b\<rparr>"
proof -
  have same: "\<exists>b. step = step\<lparr>body := b\<rparr>"
    by (rule exI[of _ "body step"]) simp
  show ?thesis
  proof (cases "link_at ts i")
    case None
    then have "step' = step" using assms by (simp add: prepare_step_def)
    then show ?thesis using same by simp
  next
    case (Some t)
    show ?thesis
    proof (cases "i > 0 \<and> truthy cd")
      case True
      then have "link_step t cd step = Inr step'" using assms Some by (simp add: prepare_step_def)
      then show ?thesis by (rule link_step_body_only)
    next
      case False
      then have "prepare_step ts i cd step = Inr step" using Some by (auto simp: prepare_step_def)
      then have "step' = step" using assms by simp
      then show ?thesis using same by simp
    qed
  qed
qed

lemma prepare_step_falsy: "\<not> truthy cd \<Longrightarrow> prepare_step ts i cd step = Inr step"
  by (simp add: prepare_step_def split: option.splits)

lemma falsy_values: "(\<not> truthy v) = (v \<in> {JUndefined, JNull, JBool False, JNum 0, JNaN, JStr ''''})"
  by (cases v) auto

lemma makeApiCall_chain_error: "makeApiCall_chain fetch w c = (Inl e, w') \<Longrightarrow> \<exists>m. e = Error m"
  by (auto simp: makeApiCall_chain_def Let_def split: prod.splits fetch_result.splits sum.splits if_splits)

lemma makeApiCall_chain_fails:
  "isl (fst (makeApiCall_chain fetch w c)) =
     (case fst (fetch w (build_request c)) of
        FetchFailed m \<Rightarrow> True
      | Response r \<Rightarrow> \<not> ok r \<or> isl (read_body (declared_type c) r))"
  by (auto simp: makeApiCall_chain_def Let_def split: prod.splits fetch_result.splits sum.splits if_splits)

lemma run_chain_prepare_fails:
  "prepare_step ts i cd step = Inl e \<Longrightarrow> run_chain fetch ts i (step # rest) cd w = (Inl e, [], w)"
  by simp

lemma run_chain_call_fails:
  "prepare_step ts i cd step = Inr step' \<Longrightarrow> makeApiCall_chain fetch w step' = (Inl e, w1)
    \<Longrightarrow> run_chain fetch ts i (step # rest) cd w = (Inl e, [(step', Inl e)], w1)"
  by simp

lemma run_chain_call_succeeds:
  "prepare_step ts i cd step = Inr step' \<Longrightarrow> makeApiCall_chain fetch w step' = (Inr r, w1)
    \<Longrightarrow> run_chain fetch ts (Suc i) rest (data r) w1 = (res', calls', w2)
    \<Longrightarrow> run_chain fetch ts i (step # rest) cd w =
          ((case res' of Inl e \<Rightarrow> Inl e | Inr rs \<Rightarrow> Inr (r # rs)), (step', Inr r) # calls', w2)"
  by (simp split: sum.splits)

lemma run_chain_cases:
  assumes "run_chain fetch ts i (step # rest) cd w = (res, calls, w')"
  obtains (prep) e where "prepare_step ts i cd step = Inl e" "res = Inl e" "calls = []"
  | (fail) step' e w1 where "prepare_step ts i cd step = Inr step'"
      "makeApiCall_chain fetch w step' = (Inl e, w1)" "res = Inl e" "calls = [(step', Inl e)]"
  | (succ) step' r w1 res' calls' where "prepare_step ts i cd step = Inr step'"
      "makeApiCall_chain fetch w step' = (Inr r, w1)"
      "run_chain fetch ts (Suc i) rest (data r) w1 = (res', calls', w')"
      "res = (case res' of Inl e \<Rightarrow> Inl e | Inr rs \<Rightarrow> Inr (r # rs))"
      "calls = (step', Inr r) # calls'"
proof (cases "prepare_step ts i cd step")
  case (Inl e)
  then show ?thesis using assms prep by simp
next
  case (Inr step')
  obtain o1 w1 where m: "makeApiCall_chain fetch w step' = (o1, w1)" by (cases "makeApiCall_chain fetch w step'")
  show ?thesis
  proof (cases o1)
    case (Inl e)
    then show ?thesis using assms Inr m fail by simp
  next
    case r: (Inr r)
    obtain res' calls' w2 where rc: "run_chain fetch ts (Suc i) rest (data r) w1 = (res', calls', w2)"
      by (cases "run_chain fetch ts (Suc i) rest (data r) w1")
    have "run_chain fetch ts i (step # rest) cd w =
          ((case res' of Inl e \<Rightarrow> Inl e | Inr rs \<Rightarrow> Inr (r # rs)), (step', Inr r) # calls', w2)"
      using run_chain_call_succeeds[OF Inr _ rc] m r by simp
    then show ?thesis using assms succ[OF Inr _ _ _ _] m r rc by auto
  qed
qed

lemma run_chain_length: "run_chain fetch ts i sts cd w = (res, calls, w') \<Longrightarrow> length calls \<le> length sts"
proof (induction sts arbitrary: i cd w res calls)
  case Nil
  then show ?case by simp
next
  case (Cons step rest)
  from Cons.prems show ?case
  proof (cases rule: run_chain_cases)
    case (succ step' r w1 res' calls')
    then show ?thesis using Cons.IH by fastforce
  qed auto
qed

lemma current_data_Cons:
  "current_data cd ((c, Inr r) # calls) (Suc j) = current_data (data r) calls j"
  by (cases j) (simp_all add: current_data_def)

lemma run_chain_prepared:
  "run_chain fetch ts i sts cd w = (res, calls, w') \<Longrightarrow> j < length calls
    \<Longrightarrow> prepare_step ts (i + j) (current_data cd calls j) (sts ! j) = Inr (fst (calls ! j))"
proof (induction sts arbitrary: i cd w res calls j)
  case Nil
  then show ?case by simp
next
  case (Cons step rest)
  from Cons.prems(1) show ?case
  proof (cases rule: run_chain_cases)
    case (prep e)
    then show ?thesis using Cons.prems(2) by simp
  next
    case (fail step' e w1)
    then show ?thesis using Cons.prems(2) by (simp add: current_data_def)
  next
    case (succ step' r w1 res' calls')
    show ?thesis
    proof (cases j)
      case 0
      then show ?thesis using succ by (simp add: current_data_def)
    next
      case (Suc j')
      then have "j' < length calls'" using Cons.prems(2) succ by simp
      then have "prepare_step ts (Suc i + j') (current_data (data r) calls' j') (rest ! j') = Inr (fst (calls' ! j'))"
        using Cons.IH[OF succ(3)] by blast
      then show ?thesis using Suc succ(5) by (simp add: current_data_Cons)
    qed
  qed
qed

lemma run_chain_failure_last:
  "run_chain fetch ts i sts cd w = (res, calls, w') \<Longrightarrow> j < length calls \<Longrightarrow> snd (calls ! j) = Inl e
    \<Longrightarrow> Suc j = length calls \<and> res = Inl e"
proof (induction sts arbitrary: i cd w res calls j)
  case Nil
  then show ?case by simp
next
  case (Cons step rest)
  from Cons.prems(1) show ?case
  proof (cases rule: run_chain_cases)
    case (prep e)
    then show ?thesis using Cons.prems(2) by simp
  next
    case (fail step' e' w1)
    then show ?thesis using Cons.prems(2,3) by simp
  next
    case (succ step' r w1 res' calls')
    show ?thesis
    proof (cases j)
      case 0
      then show ?thesis using succ Cons.prems(3) by simp
    next
      case (Suc j')
      then have "j' < length calls'" "snd (calls' ! j') = Inl e" using Cons.prems(2,3) succ by simp_all
      then have "Suc j' = length calls' \<and> res' = Inl e" using Cons.IH[OF succ(3)] by blast
      then show ?thesis using Suc succ(4,5) by simp
    qed
  qed
qed

lemma run_chain_success:
  "run_chain fetch ts i sts cd w = (Inr rs, calls, w') \<Longrightarrow> map snd calls = map Inr rs \<and> length rs = length sts"
proof (induction sts arbitrary: i cd w rs calls)
  case Nil
  then show ?case by simp
next
  case (Cons step rest)
  from Cons.prems show ?case
  proof (cases rule: run_chain_cases)
    case (succ step' r w1 res' calls')
    then obtain rs' where rs': "res' = Inr rs'" "rs = r # rs'" by (cases res') auto
    then have "map snd calls' = map Inr rs' \<and> length rs' = length rest"
      using Cons.IH succ(3) by blast
    then show ?thesis using succ(5) rs' by simp
  qed auto
qed

lemma run_chain_complete:
  "run_chain fetch ts i sts cd w = (res, calls, w') \<Longrightarrow> length calls = length sts
    \<Longrightarrow> \<forall>j < length calls. \<exists>r. snd (calls ! j) = Inr r \<Longrightarrow> \<exists>rs. res = Inr rs"
proof (induction sts arbitrary: i cd w res calls)
  case Nil
  then show ?case by auto
next
  case (Cons step rest)
  from Cons.prems(1) show ?case
  proof (cases rule: run_chain_cases)
    case (prep e)
    then show ?thesis using Cons.prems(2) by simp
  next
    case (fail step' e w1)
    then show ?thesis using Cons.prems(3) by auto
  next
    case (succ step' r w1 res' calls')
    have "length calls' = length rest" using Cons.prems(2) succ(5) by simp
    moreover have "\<forall>j < length calls'. \<exists>r. snd (calls' ! j) = Inr r"
    proof (intro allI impI)
      fix j assume "j < length calls'"
      then have "Suc j < length calls" using succ(5) by simp
      then obtain r' where "snd (calls ! Suc j) = Inr r'" using Cons.prems(3) by blast
      then show "\<exists>r. snd (calls' ! j) = Inr r" using succ(5) by simp
    qed
    ultimately obtain rs where "res' = Inr rs" using Cons.IH[OF succ(3)] by blast
    then show ?thesis using succ(4) by simp
  qed
qed

lemma run_chain_continues:
  "run_chain fetch ts i sts cd w = (res, calls, w') \<Longrightarrow> j < length calls \<Longrightarrow> snd (calls ! j) = Inr r
    \<Longrightarrow> Suc j < length sts \<Longrightarrow> prepare_step ts (i + Suc j) (data r) (sts ! Suc j) = Inr s
    \<Longrightarrow> Suc j < length calls"
proof (induction sts arbitrary: i cd w res calls j)
  case Nil
  then show ?case by simp
next
  case (Cons step rest)
  from Cons.prems(1) show ?case
  proof (cases rule: run_chain_cases)
    case (prep e)
    then show ?thesis using Cons.prems(2) by simp
  next
    case (fail step' e w1)
    then show ?thesis using Cons.prems(2,3) by simp
  next
    case (succ step' r0 w1 res' calls')
    show ?thesis
    proof (cases j)
      case 0
      then have r: "r0 = r" using succ(5) Cons.prems(3) by simp
      obtain nxt rest' where rest: "rest = nxt # rest'" using Cons.prems(4) 0 by (cases rest) auto
      have p: "prepare_step ts (Suc i) (data r0) nxt = Inr s" using Cons.prems(5) 0 rest r by simp
      have "calls' \<noteq> []"
      proof
        assume e: "calls' = []"
        from succ(3)[unfolded rest] show False
          by (cases rule: run_chain_cases) (use p e in auto)
      qed
      then show ?thesis using 0 succ(5) by (cases calls') auto
    next
      case (Suc j')
      then have "j' < length calls'" "snd (calls' ! j') = Inr r" "Suc j' < length rest"
        "prepare_step ts (Suc i + Suc j') (data r) (rest ! Suc j') = Inr s"
        using Cons.prems(2,3,4,5) succ(5) by simp_all
      then have "Suc j' < length calls'" using Cons.IH[OF succ(3)] by blast
      then show ?thesis using Suc succ(5) by simp
    qed
  qed
qed

lemmas chain_eval_defs =
  POST_chainFetch_def prepare_step_def link_at_def link_step_def inject_stage_def
  add_access_token_def transform_stage_def injectAtPath_def opt_get_prop_def js_or_def
  reply_of_error_def object_prototype_keys_def inherited_or_absent_def

lemma run_chain_call_error:
  "run_chain fetch ts i sts cd w = (res, calls, w') \<Longrightarrow> j < length calls \<Longrightarrow> snd (calls ! j) = Inl e
    \<Longrightarrow> \<exists>m. e = Error m"
proof (induction sts arbitrary: i cd w res calls j)
  case Nil
  then show ?case by simp
next
  case (Cons step rest)
  from Cons.prems(1) show ?case
  proof (cases rule: run_chain_cases)
    case (prep e')
    then show ?thesis using Cons.prems(2) by simp
  next
    case (fail step' e' w1)
    then have "e = e'" using Cons.prems(2,3) by simp
    then show ?thesis using makeApiCall_chain_error[OF fail(2)] by simp
  next
    case (succ step' r w1 res' calls')
    show ?thesis
    proof (cases j)
      case 0
      then show ?thesis using succ Cons.prems(3) by simp
    next
      case (Suc j')
      then have "j' < length calls'" "snd (calls' ! j') = Inl e" using Cons.prems(2,3) succ by simp_all
      then show ?thesis using Cons.IH[OF succ(3)] by blast
    qed
  qed
qed

lemma POST_chainFetch_authenticated:
  assumes "POST_chainFetch fetch w (Some sub) (Some tok) (Inr config) = (rep, calls, w')"
    and "sub \<noteq> []" "tok \<noteq> []"
  obtains res where
    "run_chain fetch (transforms config) 0 (map (add_access_token tok) (steps config)) JNull w
       = (res, calls, w')"
    "rep = (case res of Inl e \<Rightarrow> reply_of_error e | Inr rs \<Rightarrow> Json200 rs)"
proof -
  obtain res calls0 w0 where rc:
    "run_chain fetch (transforms config) 0 (map (add_access_token tok) (steps config)) JNull w
       = (res, calls0, w0)"
    by (cases "run_chain fetch (transforms config) 0 (map (add_access_token tok) (steps config)) JNull w")
  have "POST_chainFetch fetch w (Some sub) (Some tok) (Inr config)
      = ((case res of Inl e \<Rightarrow> reply_of_error e | Inr rs \<Rightarrow> Json200 rs), calls0, w0)"
    using assms(2,3) rc by (simp add: POST_chainFetch_def split: sum.splits)
  then show ?thesis using assms(1) rc that by simp
qed

text \<open>
  C2: for an authenticated request with N steps, at most N calls are made. If N calls
  are made and all succeed, the reply is status 200 with exactly N step results, those of
  the calls in order; and a 200 reply always holds exactly that. If a call fails, the
  reply is status 500 carrying that call's error and nothing else, and the failing call
  is the last one made. A call fails exactly when \<^verbatim>\<open>fetch\<close> fails, or the status is
  outside 200..299, or the body cannot be read in the declared mode.
\<close>

theorem chain_all_or_nothing:
  assumes "POST_chainFetch fetch w (Some sub) (Some tok) (Inr config) = (rep, calls, w')"
    and "sub \<noteq> []" and "tok \<noteq> []"
  shows "length calls \<le> length (steps config)
    \<and> (length calls = length (steps config) \<and> (\<forall>j < length calls. \<exists>r. snd (calls ! j) = Inr r)
         \<longrightarrow> (\<exists>rs. rep = Json200 rs \<and> length rs = length (steps config) \<and> map snd calls = map Inr rs))
    \<and> (\<forall>rs. rep = Json200 rs \<longrightarrow> length rs = length (steps config) \<and> map snd calls = map Inr rs)
    \<and> (\<forall>j < length calls. \<forall>e. snd (calls ! j) = Inl e \<longrightarrow> rep = Json500 e \<and> Suc j = length calls)
    \<and> (\<forall>w0 c. isl (fst (makeApiCall_chain fetch w0 c)) =
          (case fst (fetch w0 (build_request c)) of
             FetchFailed m \<Rightarrow> True
           | Response r \<Rightarrow> \<not> ok r \<or> isl (read_body (declared_type c) r)))"
proof -
  let ?sts = "map (add_access_token tok) (steps config)"
  obtain res where rc: "run_chain fetch (transforms config) 0 ?sts JNull w = (res, calls, w')"
    and rep: "rep = (case res of Inl e \<Rightarrow> reply_of_error e | Inr rs \<Rightarrow> Json200 rs)"
    using assms by (rule POST_chainFetch_authenticated)
  have len: "length calls \<le> length (steps config)"
    using run_chain_length[OF rc] by simp
  have ok200: "length rs = length (steps config) \<and> map snd calls = map Inr rs" if "rep = Json200 rs" for rs
  proof -
    have "res = Inr rs" using that rep by (cases res) (auto simp: reply_of_error_def split: error.splits)
    then show ?thesis using run_chain_success[of fetch "transforms config" 0 ?sts JNull w rs calls w'] rc
      by simp
  qed
  have full: "\<exists>rs. rep = Json200 rs \<and> length rs = length (steps config) \<and> map snd calls = map Inr rs"
    if h: "length calls = length (steps config)" "\<forall>j < length calls. \<exists>r. snd (calls ! j) = Inr r"
  proof -
    have "length calls = length ?sts" using h(1) by simp
    then obtain rs where "res = Inr rs" using run_chain_complete[OF rc _ h(2)] by blast
    then have "rep = Json200 rs" using rep by simp
    then show ?thesis using ok200 by blast
  qed
  have fail: "rep = Json500 e \<and> Suc j = length calls" if "j < length calls" "snd (calls ! j) = Inl e" for j e
  proof -
    have l: "Suc j = length calls \<and> res = Inl e" using run_chain_failure_last[OF rc that] .
    have "\<exists>m. e = Error m" using run_chain_call_error[OF rc that] .
    then show ?thesis using l rep by (auto simp: reply_of_error_def)
  qed
  show ?thesis
  proof (intro conjI)
    show "length calls \<le> length (steps config)" by (rule len)
    show "length calls = length (steps config) \<and> (\<forall>j < length calls. \<exists>r. snd (calls ! j) = Inr r)
         \<longrightarrow> (\<exists>rs. rep = Json200 rs \<and> length rs = length (steps config) \<and> map snd calls = map Inr rs)"
      using full by blast
    show "\<forall>rs. rep = Json200 rs \<longrightarrow> length rs = length (steps config) \<and> map snd calls = map Inr rs"
      using ok200 by blast
    show "\<forall>j < length calls. \<forall>e. snd (calls ! j) = Inl e \<longrightarrow> rep = Json500 e \<and> Suc j = length calls"
      using fail by blast
    show "\<forall>w0 c. isl (fst (makeApiCall_chain fetch w0 c)) =
          (case fst (fetch w0 (build_request c)) of
             FetchFailed m \<Rightarrow> True
           | Response r \<Rightarrow> \<not> ok r \<or> isl (read_body (declared_type c) r))"
      by (intro allI) (rule makeApiCall_chain_fails)
  qed
qed

text \<open>
  Three steps whose second is answered with status 500: two calls are made and the reply
  is the error of the second. Two steps that both succeed: two results.
\<close>

theorem chain_all_or_nothing_witness:
  "fst (POST_chainFetch sample_fetch 0 (Some ''user'') (Some ''tok'')
          (Inr \<lparr> steps = failing_steps, transforms = None \<rparr>))
     = Json500 (Error (''HTTP Error: 500 - Internal Server Error'' @ [CHR 0x0A] @ ''Details: boom''))
   \<and> length (fst (snd (POST_chainFetch sample_fetch 0 (Some ''user'') (Some ''tok'')
          (Inr \<lparr> steps = failing_steps, transforms = None \<rparr>)))) = 2
   \<and> length (steps \<lparr> steps = failing_steps, transforms = None \<rparr>) = 3
   \<and> (\<exists>rs. fst (POST_chainFetch sample_fetch 0 (Some ''user'') (Some ''tok'')
          (Inr \<lparr> steps = two_steps, transforms = None \<rparr>)) = Json200 rs \<and> length rs = 2)"
proof -
  let ?bad = "POST_chainFetch sample_fetch 0 (Some ''user'') (Some ''tok'')
          (Inr \<lparr> steps = failing_steps, transforms = None \<rparr>)"
  let ?good = "POST_chainFetch sample_fetch 0 (Some ''user'') (Some ''tok'')
          (Inr \<lparr> steps = two_steps, transforms = None \<rparr>)"
  have auth: "''user'' \<noteq> []" "''tok'' \<noteq> []" by simp_all
  have bad_eq: "?bad = (fst ?bad, fst (snd ?bad), snd (snd ?bad))" by simp
  have good_eq: "?good = (fst ?good, fst (snd ?good), snd (snd ?good))" by simp
  note tb = chain_all_or_nothing [OF bad_eq auth]
  note tg = chain_all_or_nothing [OF good_eq auth]
  have failed: "1 < length (fst (snd ?bad))
      \<and> snd (fst (snd ?bad) ! 1)
          = Inl (Error (''HTTP Error: 500 - Internal Server Error'' @ [CHR 0x0A] @ ''Details: boom''))"
    by (simp add: chain_eval_defs eval_defs failing_steps_def show_nat.simps digit_char_def)
  have b: "fst ?bad = Json500 (Error (''HTTP Error: 500 - Internal Server Error'' @ [CHR 0x0A] @ ''Details: boom''))
      \<and> Suc 1 = length (fst (snd ?bad))"
    using tb[THEN conjunct2, THEN conjunct2, THEN conjunct2, THEN conjunct1] failed by blast
  have all_ok: "length (fst (snd ?good)) = length (steps \<lparr> steps = two_steps, transforms = None \<rparr>)
      \<and> (\<forall>j < length (fst (snd ?good)). \<exists>r. snd (fst (snd ?good) ! j) = Inr r)"
    by (simp add: chain_eval_defs eval_defs two_steps_def less_Suc_eq)
  have g: "\<exists>rs. fst ?good = Json200 rs \<and> length rs = length (steps \<lparr> steps = two_steps, transforms = None \<rparr>)"
    using tg[THEN conjunct2, THEN conjunct1] all_ok by blast
  have n3: "length (steps \<lparr> steps = failing_steps, transforms = None \<rparr>) = 3"
    by (simp add: failing_steps_def)
  have n2: "length (steps \<lparr> steps = two_steps, transforms = None \<rparr>) = 2"
    by (simp add: two_steps_def)
  show ?thesis using b g n3 n2 by simp
qed

text \<open>
  C10: when the call of step \<open>j\<close> succeeded with a falsy raw body (\<^verbatim>\<open>undefined\<close>, \<^verbatim>\<open>null\<close>,
  \<^verbatim>\<open>false\<close>, \<^verbatim>\<open>0\<close>, \<^verbatim>\<open>NaN\<close> or the empty string) and a further step is declared, that
  step is executed, and it is executed as declared (with the access token added where the
  URL asks for it): whatever links are given, nothing is extracted, transformed or
  injected, and the body is the declared one.
\<close>

theorem falsy_body_skips_chain_link:
  assumes "POST_chainFetch fetch w (Some sub) (Some tok) (Inr config) = (rep, calls, w')"
    and "sub \<noteq> []" and "tok \<noteq> []"
    and "j < length calls" and "snd (calls ! j) = Inr r" and "\<not> truthy (data r)"
    and "Suc j < length (steps config)"
  shows "Suc j < length calls
    \<and> fst (calls ! Suc j) = add_access_token tok (steps config ! Suc j)
    \<and> body (fst (calls ! Suc j)) = body (steps config ! Suc j)
    \<and> (\<forall>ts i step. prepare_step ts i (data r) step = Inr step)
    \<and> data r \<in> {JUndefined, JNull, JBool False, JNum 0, JNaN, JStr ''''}"
proof -
  let ?sts = "map (add_access_token tok) (steps config)"
  obtain res where rc: "run_chain fetch (transforms config) 0 ?sts JNull w = (res, calls, w')"
    using assms(1-3) by (rule POST_chainFetch_authenticated)
  have skip: "prepare_step ts i (data r) step = Inr step" for ts i step
    using assms(6) by (rule prepare_step_falsy)
  have n: "Suc j < length ?sts" using assms(7) by simp
  have more: "Suc j < length calls"
    using run_chain_continues[OF rc assms(4,5) n] skip by simp
  have cd: "current_data JNull calls (Suc j) = data r"
    using assms(5) by (simp add: current_data_def)
  have "prepare_step (transforms config) (0 + Suc j) (current_data JNull calls (Suc j)) (?sts ! Suc j)
      = Inr (fst (calls ! Suc j))"
    using run_chain_prepared[OF rc more] .
  then have "fst (calls ! Suc j) = ?sts ! Suc j" using skip cd by simp
  then have same: "fst (calls ! Suc j) = add_access_token tok (steps config ! Suc j)"
    using assms(7) by simp
  have "body (add_access_token tok (steps config ! Suc j)) = body (steps config ! Suc j)"
    by (simp add: add_access_token_def)
  then show ?thesis using more same skip assms(6) falsy_values by auto
qed

text \<open>
  The first step is answered with the body \<^verbatim>\<open>0\<close>; a link with an inject path stands at
  index 1; the second step is sent with its declared body \<^verbatim>\<open>{keep: 1}\<close>.
\<close>

theorem falsy_body_skips_chain_link_witness:
  "(\<exists>r. snd (fst (snd (POST_chainFetch sample_fetch 0 (Some ''user'') (Some ''tok'')
            (Inr \<lparr> steps = zero_steps, transforms = Some [id_link, related_link] \<rparr>))) ! 0) = Inr r
        \<and> data r = JNum 0)
   \<and> link_at (Some [id_link, related_link]) 1 = Some related_link
   \<and> body (fst (fst (snd (POST_chainFetch sample_fetch 0 (Some ''user'') (Some ''tok'')
            (Inr \<lparr> steps = zero_steps, transforms = Some [id_link, related_link] \<rparr>))) ! Suc 0))
       = JObj [(''keep'', JNum 1)]"
proof -
  let ?cfg = "\<lparr> steps = zero_steps, transforms = Some [id_link, related_link] \<rparr>"
  let ?run = "POST_chainFetch sample_fetch 0 (Some ''user'') (Some ''tok'') (Inr ?cfg)"
  have auth: "''user'' \<noteq> []" "''tok'' \<noteq> []" by simp_all
  have eq: "?run = (fst ?run, fst (snd ?run), snd (snd ?run))" by simp
  have first: "0 < length (fst (snd ?run))
      \<and> snd (fst (snd ?run) ! 0) = Inr \<lparr> data = JNum 0, status = 200, statusText = ''OK'',
            responseHeaders = [(''content-type'', ''application/json'')],
            simplifiedContent = JNum 0, contentType = KJson, contentFormat = None \<rparr>"
    by (simp add: chain_eval_defs eval_defs zero_steps_def id_link_def related_link_def)
  have falsy: "\<not> truthy (data \<lparr> data = JNum 0, status = 200, statusText = ''OK'',
            responseHeaders = [(''content-type'', ''application/json'')],
            simplifiedContent = JNum 0, contentType = KJson, contentFormat = None \<rparr>)"
    by simp
  have n: "Suc 0 < length (steps ?cfg)" by (simp add: zero_steps_def)
  have "body (fst (fst (snd ?run) ! Suc 0)) = body (steps ?cfg ! Suc 0)"
    using falsy_body_skips_chain_link [OF eq auth conjunct1[OF first] conjunct2[OF first] falsy n]
    by (elim conjE)
  then have b: "body (fst (fst (snd ?run) ! Suc 0)) = JObj [(''keep'', JNum 1)]"
    by (simp add: zero_steps_def post_step_def)
  have l: "link_at (Some [id_link, related_link]) 1 = Some related_link"
    by (simp add: link_at_def)
  show ?thesis using first b l by simp
qed

subsection \<open>Access token\<close>

lemma add_access_token_fields:
  "url (add_access_token tok s) = url s"
  "http_method (add_access_token tok s) = http_method s"
  "body (add_access_token tok s) = body s"
  "params (add_access_token tok s) = params s"
  "responseType (add_access_token tok s) = responseType s"
  "headers (add_access_token tok s) =
     (if \<exists>p q. url s = p @ ''api.openai.com'' @ q
      then Some (assign ''Authorization'' (''Bearer '' @ tok) (case headers s of None \<Rightarrow> [] | Some hs \<Rightarrow> hs))
      else headers s)"
  by (simp_all add: add_access_token_def str_includes_iff)

text \<open>
  Which steps get the header: before the loop starts, every step whose URL string
  contains \<^verbatim>\<open>api.openai.com\<close> anywhere gets its headers extended by \<^verbatim>\<open>Authorization\<close>
  with the value \<^verbatim>\<open>Bearer\<close> and the access token (replacing an \<^verbatim>\<open>Authorization\<close> header
  it had), and every other step is left as it is. Each call that is made has the
  configuration of its step after that, up to the body set by chain-link processing.
\<close>

lemma access_token_by_url_substring:
  assumes "POST_chainFetch fetch w (Some sub) (Some tok) (Inr config) = (rep, calls, w')"
    and "sub \<noteq> []" and "tok \<noteq> []"
  shows "(\<forall>j < length calls. \<exists>b. fst (calls ! j) = (add_access_token tok (steps config ! j))\<lparr>body := b\<rparr>)
    \<and> (\<forall>s. headers (add_access_token tok s) =
           (if \<exists>p q. url s = p @ ''api.openai.com'' @ q
            then Some (assign ''Authorization'' (''Bearer '' @ tok)
                         (case headers s of None \<Rightarrow> [] | Some hs \<Rightarrow> hs))
            else headers s)
          \<and> url (add_access_token tok s) = url s
          \<and> http_method (add_access_token tok s) = http_method s
          \<and> body (add_access_token tok s) = body s
          \<and> params (add_access_token tok s) = params s
          \<and> responseType (add_access_token tok s) = responseType s)
    \<and> (\<forall>hs. map_of (assign ''Authorization'' (''Bearer '' @ tok) hs)
           = (map_of hs)(''Authorization'' \<mapsto> ''Bearer '' @ tok))"
proof -
  let ?sts = "map (add_access_token tok) (steps config)"
  obtain res where rc: "run_chain fetch (transforms config) 0 ?sts JNull w = (res, calls, w')"
    using assms by (rule POST_chainFetch_authenticated)
  have a: "\<exists>b. fst (calls ! j) = (add_access_token tok (steps config ! j))\<lparr>body := b\<rparr>"
    if j: "j < length calls" for j
  proof -
    have "j < length (steps config)" using run_chain_length[OF rc] j by simp
    then have "?sts ! j = add_access_token tok (steps config ! j)" by simp
    then show ?thesis using prepare_step_body_only[OF run_chain_prepared[OF rc j]] by simp
  qed
  have b: "\<forall>s. headers (add_access_token tok s) =
           (if \<exists>p q. url s = p @ ''api.openai.com'' @ q
            then Some (assign ''Authorization'' (''Bearer '' @ tok)
                         (case headers s of None \<Rightarrow> [] | Some hs \<Rightarrow> hs))
            else headers s)
          \<and> url (add_access_token tok s) = url s
          \<and> http_method (add_access_token tok s) = http_method s
          \<and> body (add_access_token tok s) = body s
          \<and> params (add_access_token tok s) = params s
          \<and> responseType (add_access_token tok s) = responseType s"
    by (simp only: add_access_token_fields) simp
  have c: "\<forall>hs. map_of (assign ''Authorization'' (''Bearer '' @ tok) hs)
           = (map_of hs)(''Authorization'' \<mapsto> ''Bearer '' @ tok)"
    by (simp only: map_of_assign) simp
  show ?thesis using a b c by blast
qed

text \<open>A step for \<^verbatim>\<open>https://api.openai.com/v1/models\<close> is sent with the header, a step for another URL is not touched.\<close>

lemma access_token_by_url_substring_example:
  "headers (fst (fst (snd (POST_chainFetch sample_fetch 0 (Some ''user'') (Some ''tok'')
       (Inr \<lparr> steps = [get_step ''https://api.openai.com/v1/models'', get_step ''https://a.test/item''],
               transforms = None \<rparr>))) ! 0))
     = Some [(''Authorization'', ''Bearer tok'')]
   \<and> headers (add_access_token ''tok'' (get_step ''https://a.test/item'')) = None"
proof -
  let ?cfg = "\<lparr> steps = [get_step ''https://api.openai.com/v1/models'', get_step ''https://a.test/item''],
               transforms = None \<rparr>"
  let ?run = "POST_chainFetch sample_fetch 0 (Some ''user'') (Some ''tok'') (Inr ?cfg)"
  have auth: "''user'' \<noteq> []" "''tok'' \<noteq> []" by simp_all
  have eq: "?run = (fst ?run, fst (snd ?run), snd (snd ?run))" by simp
  note t = access_token_by_url_substring [OF eq auth]
  have n: "0 < length (fst (snd ?run))"
    by (simp add: chain_eval_defs eval_defs)
  obtain b where b: "fst (fst (snd ?run) ! 0)
      = (add_access_token ''tok'' (steps ?cfg ! 0))\<lparr>body := b\<rparr>"
    using t[THEN conjunct1] n by blast
  have "headers (fst (fst (snd ?run) ! 0)) = headers (add_access_token ''tok'' (steps ?cfg ! 0))"
    by (simp add: b)
  also have "\<dots> = Some [(''Authorization'', ''Bearer tok'')]"
    by (simp add: add_access_token_def get_step_def assign_Nil)
  finally have h: "headers (fst (fst (snd ?run) ! 0)) = Some [(''Authorization'', ''Bearer tok'')]" .
  have o: "headers (add_access_token ''tok'' (get_step ''https://a.test/item'')) = None"
    by (simp add: add_access_token_def get_step_def)
  show ?thesis using h o by simp
qed

text \<open>
  C5: the \<^verbatim>\<open>Authorization\<close> header should be injected into exactly those steps whose
  target host is \<^verbatim>\<open>api.openai.com\<close>. The code asks whether the URL string contains that
  name. The URL \<^verbatim>\<open>https://example.com/api.openai.com\<close> has the host \<^verbatim>\<open>example.com\<close>;
  a step for it that declares no headers is given the caller's bearer token all the
  same, and the request the endpoint hands to \<^verbatim>\<open>fetch\<close> for it carries the token.
\<close>

theorem access_token_sent_to_other_host:
  "url_host ''https://example.com/api.openai.com'' = ''example.com''
   \<and> url_host ''https://example.com/api.openai.com'' \<noteq> ''api.openai.com''
   \<and> headers (get_step ''https://example.com/api.openai.com'') = None
   \<and> headers (add_access_token ''tok'' (get_step ''https://example.com/api.openai.com''))
       = Some [(''Authorization'', ''Bearer tok'')]
   \<and> map (\<lambda>c. w_headers (build_request (fst c)))
         (fst (snd (POST_chainFetch sample_fetch 0 (Some ''user'') (Some ''tok'')
            (Inr \<lparr> steps = [get_step ''https://example.com/api.openai.com''], transforms = None \<rparr>))))
       = [[(''Authorization'', ''Bearer tok''), (''Content-Type'', ''application/json'')]]"
  by (simp add: url_host_def chain_eval_defs eval_defs)

subsection \<open>Which link governs which step\<close>

text \<open>
  C1: with steps \<^verbatim>\<open>[A, B]\<close> and the single link
  \<^verbatim>\<open>{extractPath: ["data","id"], injectPath: "relatedId"}\<close>, where A answers
  \<^verbatim>\<open>{data: {id: "x1"}}\<close>, step B should be sent with the body \<^verbatim>\<open>{relatedId: "x1"}\<close>.
  Iteration \<open>i\<close> of the loop reads \<^verbatim>\<open>config.transforms?.[i]\<close> and uses it only when
  \<^verbatim>\<open>i > 0\<close>, so the link at index 0 is never applied: B is sent with its declared body
  (none). The expected body arrives only when the link stands at index 1.
\<close>

theorem first_link_is_never_applied:
  "map (body \<circ> fst) (fst (snd (POST_chainFetch sample_fetch 0 (Some ''user'') (Some ''tok'')
       (Inr \<lparr> steps = two_steps, transforms = Some [related_link] \<rparr>))))
     = [JUndefined, JUndefined]
   \<and> map (body \<circ> fst) (fst (snd (POST_chainFetch sample_fetch 0 (Some ''user'') (Some ''tok'')
       (Inr \<lparr> steps = two_steps, transforms = Some [id_link, related_link] \<rparr>))))
     = [JUndefined, JObj [(''relatedId'', JStr ''x1'')]]
   \<and> map (\<lambda>c. map_sum id data (snd c)) (fst (snd (POST_chainFetch sample_fetch 0 (Some ''user'') (Some ''tok'')
       (Inr \<lparr> steps = two_steps, transforms = Some [related_link] \<rparr>))))
     = [Inr item_body, Inr (JObj [(''ok'', JBool True)])]"
  by (simp add: chain_eval_defs eval_defs two_steps_def id_link_def related_link_def)

text \<open>In general the request of call \<open>j\<close> is built by the link at index \<open>j\<close>, from the raw body of call \<open>j - 1\<close>.\<close>

lemma chain_link_index:
  assumes "run_chain fetch ts 0 sts cd w = (res, calls, w')" "j < length calls"
  shows "Inr (fst (calls ! j)) =
     (case link_at ts j of
        None \<Rightarrow> Inr (sts ! j)
      | Some t \<Rightarrow> (if j > 0 \<and> truthy (current_data cd calls j)
                   then link_step t (current_data cd calls j) (sts ! j) else Inr (sts ! j)))"
  using run_chain_prepared[OF assms] by (simp add: prepare_step_def)

subsection \<open>The single/double-hop endpoint\<close>

lemma transform_stage_identity: "transform_stage r (Some ''identity'') d = Inr d"
  by (simp add: transform_stage_def transformFunctions_def)

lemma next_request_identity:
  assumes "extractPath cc = None" "injectPath cc = None" "transformFn cc = Some ''identity''"
  shows "next_request cc nxt first = Inr (nxt\<lparr>body := simplifiedContent first\<rparr>)"
  using assms by (simp add: next_request_def transform_stage_identity inject_stage_def)

text \<open>
  C9: let the first call succeed. When \<^verbatim>\<open>chainConfig.next\<close> is given with no extract path,
  no inject path and the transform \<^verbatim>\<open>identity\<close>, the second call is made with \<^verbatim>\<open>next\<close>
  whose body is replaced by the simplified content of the first response (sent as the
  serialised body whenever it is truthy), and when that call succeeds too the reply is
  the first response with \<^verbatim>\<open>chainedResponse\<close> set to the second. When \<^verbatim>\<open>chainConfig\<close> or
  its \<^verbatim>\<open>next\<close> is absent, one call is made and the reply is the first response without
  \<^verbatim>\<open>chainedResponse\<close>.
\<close>

theorem openFetch_identity_hop:
  assumes "makeApiCall_open fetch w (request config) = (Inr first, w1)"
  shows "(\<forall>cc nxt. chainConfig config = Some cc \<and> next_config cc = Some nxt
            \<and> extractPath cc = None \<and> injectPath cc = None \<and> transformFn cc = Some ''identity''
          \<longrightarrow> POST_openFetch fetch w (Inr config) =
                (case makeApiCall_open fetch w1 (nxt\<lparr>body := simplifiedContent first\<rparr>) of
                   (Inl e, w2) \<Rightarrow>
                     (reply_of_error e,
                      [(request config, Inr first), (nxt\<lparr>body := simplifiedContent first\<rparr>, Inl e)], w2)
                 | (Inr second, w2) \<Rightarrow>
                     (Json200 \<lparr> response = first, chainedResponse = Some second \<rparr>,
                      [(request config, Inr first), (nxt\<lparr>body := simplifiedContent first\<rparr>, Inr second)],
                      w2)))
    \<and> (\<forall>nxt. w_body (build_request (nxt\<lparr>body := simplifiedContent first\<rparr>)) =
              (if truthy (simplifiedContent first) then Some (simplifiedContent first) else None))
    \<and> (chainConfig config = None \<or> (\<exists>cc. chainConfig config = Some cc \<and> next_config cc = None)
          \<longrightarrow> POST_openFetch fetch w (Inr config) =
                (Json200 \<lparr> response = first, chainedResponse = None \<rparr>, [(request config, Inr first)], w1))"
proof -
  have a: "POST_openFetch fetch w (Inr config) =
                (case makeApiCall_open fetch w1 (nxt\<lparr>body := simplifiedContent first\<rparr>) of
                   (Inl e, w2) \<Rightarrow>
                     (reply_of_error e,
                      [(request config, Inr first), (nxt\<lparr>body := simplifiedContent first\<rparr>, Inl e)], w2)
                 | (Inr second, w2) \<Rightarrow>
                     (Json200 \<lparr> response = first, chainedResponse = Some second \<rparr>,
                      [(request config, Inr first), (nxt\<lparr>body := simplifiedContent first\<rparr>, Inr second)],
                      w2))"
    if h: "chainConfig config = Some cc" "next_config cc = Some nxt"
      "extractPath cc = None" "injectPath cc = None" "transformFn cc = Some ''identity''" for cc nxt
  proof -
    have nr: "next_request cc nxt first = Inr (nxt\<lparr>body := simplifiedContent first\<rparr>)"
      using h(3,4,5) by (rule next_request_identity)
    show ?thesis
      using assms h(1,2) nr by (simp add: POST_openFetch_def split: prod.splits sum.splits)
  qed
  have b: "\<forall>nxt. w_body (build_request (nxt\<lparr>body := simplifiedContent first\<rparr>)) =
              (if truthy (simplifiedContent first) then Some (simplifiedContent first) else None)"
    by (simp add: build_request_def)
  have c: "POST_openFetch fetch w (Inr config) =
                (Json200 \<lparr> response = first, chainedResponse = None \<rparr>, [(request config, Inr first)], w1)"
    if "chainConfig config = None \<or> (\<exists>cc. chainConfig config = Some cc \<and> next_config cc = None)"
    using that assms by (auto simp: POST_openFetch_def)
  show ?thesis using a b c by blast
qed

text \<open>
  A chat completion followed by a second request: the second request carries the text
  \<^verbatim>\<open>hi\<close> as its body, and its response is nested in the reply.
\<close>

theorem openFetch_identity_hop_witness:
  "(\<exists>first w1. makeApiCall_open sample_fetch 0 (request identity_hop) = (Inr first, w1)
       \<and> simplifiedContent first = JStr ''hi'')
   \<and> map (body \<circ> fst) (fst (snd (POST_openFetch sample_fetch 0 (Inr identity_hop))))
       = [JUndefined, JStr ''hi'']
   \<and> (\<exists>sr. fst (POST_openFetch sample_fetch 0 (Inr identity_hop)) = Json200 sr
         \<and> simplifiedContent (response sr) = JStr ''hi''
         \<and> map_option data (chainedResponse sr) = Some (JObj [(''ok'', JBool True)]))"
proof -
  let ?first = "\<lparr> data = chat_body, status = 200, statusText = ''OK'',
            responseHeaders = [(''content-type'', ''application/json'')],
            simplifiedContent = JStr ''hi'', contentType = KJson, contentFormat = None \<rparr>"
  let ?second = "\<lparr> data = JObj [(''ok'', JBool True)], status = 200, statusText = ''OK'',
            responseHeaders = [(''content-type'', ''application/json'')],
            simplifiedContent = JObj [(''ok'', JBool True)], contentType = KJson, contentFormat = None \<rparr>"
  let ?cc = "\<lparr> extractPath = None, injectPath = None, transformFn = Some ''identity'',
               next_config = Some (post_step ''https://b.test/related'') \<rparr>"
  have f: "makeApiCall_open sample_fetch 0 (request identity_hop) = (Inr ?first, Suc 0)"
    by (simp add: identity_hop_def eval_defs parse_index_def decimal_value_def is_digit_def)
  have h: "chainConfig identity_hop = Some ?cc \<and> next_config ?cc = Some (post_step ''https://b.test/related'')
      \<and> extractPath ?cc = None \<and> injectPath ?cc = None \<and> transformFn ?cc = Some ''identity''"
    by (simp add: identity_hop_def)
  have s: "makeApiCall_open sample_fetch (Suc 0)
      ((post_step ''https://b.test/related'')\<lparr>body := simplifiedContent ?first\<rparr>) = (Inr ?second, Suc (Suc 0))"
    by (simp add: eval_defs openai_content_def opt_prop_def)
  have "POST_openFetch sample_fetch 0 (Inr identity_hop) =
        (case makeApiCall_open sample_fetch (Suc 0)
                ((post_step ''https://b.test/related'')\<lparr>body := simplifiedContent ?first\<rparr>) of
           (Inl e, w2) \<Rightarrow>
             (reply_of_error e,
              [(request identity_hop, Inr ?first),
               ((post_step ''https://b.test/related'')\<lparr>body := simplifiedContent ?first\<rparr>, Inl e)], w2)
         | (Inr second, w2) \<Rightarrow>
             (Json200 \<lparr> response = ?first, chainedResponse = Some second \<rparr>,
              [(request identity_hop, Inr ?first),
               ((post_step ''https://b.test/related'')\<lparr>body := simplifiedContent ?first\<rparr>, Inr second)],
              w2))"
    using openFetch_identity_hop [OF f, THEN conjunct1] h by blast
  then have p: "POST_openFetch sample_fetch 0 (Inr identity_hop) =
      (Json200 \<lparr> response = ?first, chainedResponse = Some ?second \<rparr>,
       [(request identity_hop, Inr ?first),
        ((post_step ''https://b.test/related'')\<lparr>body := simplifiedContent ?first\<rparr>, Inr ?second)],
       Suc (Suc 0))"
    by (simp only: s prod.case sum.case)
  have b: "map (body \<circ> fst) (fst (snd (POST_openFetch sample_fetch 0 (Inr identity_hop))))
       = [JUndefined, JStr ''hi'']"
    unfolding p by (simp add: identity_hop_def post_step_def)
  have r: "\<exists>sr. fst (POST_openFetch sample_fetch 0 (Inr identity_hop)) = Json200 sr
         \<and> simplifiedContent (response sr) = JStr ''hi''
         \<and> map_option data (chainedResponse sr) = Some (JObj [(''ok'', JBool True)])"
    unfolding p by simp
  have "\<exists>first w1. makeApiCall_open sample_fetch 0 (request identity_hop) = (Inr first, w1)
       \<and> simplifiedContent first = JStr ''hi''"
    using f by simp
  then show ?thesis using b r by blast
qed

end
